theory Spec2Isabelle
  imports Main "HOL-Library.AList"
begin

section \<open>Content identifiers and immutable nodes\<close>

text \<open>
  A CID is a string at run time (\<^verbatim>\<open>type CID<T> = string & { __phantom: T }\<close>).
  The immutable nodes are the members of the union \<^verbatim>\<open>CIDable\<close>; every field has the type
  its TypeScript declaration gives it. The field order of the constructors is:
  \<^item> \<open>GrammarRoot content\<close>
  \<^item> \<open>Commit parents content author timestamp message\<close>
  \<^item> \<open>Folder name children\<close>
  \<^item> \<open>Document name createdAt content\<close> (the name is optional)
  \<^item> \<open>Heading level content\<close>, \<open>Paragraph content\<close>, \<open>ListNode ordered items\<close>,
    \<open>ListItem content\<close>, \<open>CodeBlock language value\<close> (the language is optional),
    \<open>BlockQuote content\<close>, \<open>HorizontalRule\<close>
  \<^item> \<open>TextNode value\<close>, \<open>Emphasis content\<close>, \<open>Strong content\<close>, \<open>CodeSpan value\<close>,
    \<open>Link href content\<close>, \<open>Image src alt\<close>

  Modelled from the spec: the fields \<open>name\<close> (optional) and \<open>createdAt\<close> of a document.
  The declaration of \<^verbatim>\<open>Document\<close> that the engine is compiled against is not among the
  sources (the one in \<^verbatim>\<open>immutable/grammar.ts\<close> has neither field); the engine reads
  \<^verbatim>\<open>child.name\<close> of a document and its callers build documents with both fields.
\<close>

type_synonym CID = string

datatype node =
    GrammarRoot "CID list"
  | Commit "CID list" CID string string string
  | Folder string "CID list"
  | Document "string option" string "CID list"
  | Heading nat "CID list"
  | Paragraph "CID list"
  | ListNode bool "CID list"
  | ListItem "CID list"
  | CodeBlock "string option" string
  | BlockQuote "CID list"
  | HorizontalRule
  | TextNode string
  | Emphasis "CID list"
  | Strong "CID list"
  | CodeSpan string
  | Link string "CID list"
  | Image string string

text \<open>
  The engine reads fields of resolved nodes dynamically (\<^verbatim>\<open>(dir as any).name\<close>). The
  functions below give what such a read yields on each node; \<open>None\<close> stands for
  \<^verbatim>\<open>undefined\<close>.
\<close>

fun node_type :: "node \<Rightarrow> string" where
  "node_type (GrammarRoot _) = ''grammar_root''"
| "node_type (Commit _ _ _ _ _) = ''commit''"
| "node_type (Folder _ _) = ''folder''"
| "node_type (Document _ _ _) = ''document''"
| "node_type (Heading _ _) = ''heading''"
| "node_type (Paragraph _) = ''paragraph''"
| "node_type (ListNode _ _) = ''list''"
| "node_type (ListItem _) = ''list_item''"
| "node_type (CodeBlock _ _) = ''code_block''"
| "node_type (BlockQuote _) = ''blockquote''"
| "node_type HorizontalRule = ''horizontal_rule''"
| "node_type (TextNode _) = ''text''"
| "node_type (Emphasis _) = ''emphasis''"
| "node_type (Strong _) = ''strong''"
| "node_type (CodeSpan _) = ''code_span''"
| "node_type (Link _ _) = ''link''"
| "node_type (Image _ _) = ''image''"

text \<open>\<^verbatim>\<open>node.name\<close>\<close>

fun node_name :: "node \<Rightarrow> string option" where
  "node_name (Folder n _) = Some n"
| "node_name (Document n _ _) = n"
| "node_name _ = None"

text \<open>\<^verbatim>\<open>node.children || []\<close>\<close>

fun node_children :: "node \<Rightarrow> CID list" where
  "node_children (Folder _ cs) = cs"
| "node_children _ = []"

text \<open>
  Errors. \<open>TypeError\<close> is the JavaScript exception of reading a property of
  \<^verbatim>\<open>undefined\<close> or of iterating a value that is not iterable. \<open>IllTyped\<close> is not an
  exception: it marks a run in which a CID typed \<^verbatim>\<open>CID<Commit>\<close> resolved to a node that
  is not a commit, so that the JavaScript goes on with a value its static types exclude
  (an array or \<^verbatim>\<open>undefined\<close> in the place of a CID); the model does not follow such a run.
\<close>

datatype error = TypeError | IllTyped

text \<open>
  \<^verbatim>\<open>for (const dirCid of node.content)\<close>: the elements the loop visits. An array is
  visited element by element, the string of a commit character by character, and a node
  with no \<^verbatim>\<open>content\<close> field throws.
\<close>

fun content_elements :: "node \<Rightarrow> error + CID list" where
  "content_elements (GrammarRoot cs) = Inr cs"
| "content_elements (Commit _ c _ _ _) = Inr (map (\<lambda>ch. [ch]) c)"
| "content_elements (Document _ _ cs) = Inr cs"
| "content_elements (Heading _ cs) = Inr cs"
| "content_elements (Paragraph cs) = Inr cs"
| "content_elements (ListItem cs) = Inr cs"
| "content_elements (BlockQuote cs) = Inr cs"
| "content_elements (Emphasis cs) = Inr cs"
| "content_elements (Strong cs) = Inr cs"
| "content_elements (Link _ cs) = Inr cs"
| "content_elements _ = Inl TypeError"

text \<open>
  \<^verbatim>\<open>commit.content\<close> as a CID: \<open>Some\<close> for a commit, whose content is a string;
  \<open>None\<close> for every other node, whose \<^verbatim>\<open>content\<close> is an array or \<^verbatim>\<open>undefined\<close>.
\<close>

fun content_cid :: "node \<Rightarrow> CID option" where
  "content_cid (Commit _ c _ _ _) = Some c"
| "content_cid _ = None"

section \<open>The key-value store\<close>

text \<open>
  \<^verbatim>\<open>class KVStore\<close> wraps a \<^verbatim>\<open>Map<string, CIDable>\<close>. The function \<^verbatim>\<open>cid\<close>
  (SHA-256 of the stable JSON serialisation, both from libraries outside the repository)
  is a parameter of every operation that stores a node.
\<close>

type_synonym KVStore = "CID \<rightharpoonup> node"

definition KVStore_put :: "(node \<Rightarrow> CID) \<Rightarrow> node \<Rightarrow> KVStore \<Rightarrow> KVStore \<times> CID" where
  "KVStore_put cid n store = (let k = cid n in (store(k \<mapsto> n), k))"

definition KVStore_get :: "KVStore \<Rightarrow> CID \<Rightarrow> node option" where
  "KVStore_get store k = store k"

definition KVStore_has :: "KVStore \<Rightarrow> CID \<Rightarrow> bool" where
  "KVStore_has store k = (store k \<noteq> None)"

definition KVStore_clear :: "KVStore" where
  "KVStore_clear = Map.empty"

text \<open>\<^verbatim>\<open>this.transferTo(target)\<close>: every entry of \<open>this\<close> is set in \<open>target\<close>.\<close>

definition transferTo :: "KVStore \<Rightarrow> KVStore \<Rightarrow> KVStore" where
  "transferTo this target = target ++ this"

section \<open>The engine state\<close>

text \<open>
  A \<^verbatim>\<open>Branch\<close> is a mutable object, shared by reference between the branch lists, the
  current and default branch fields and the callers. The state therefore holds the Branch
  objects in \<open>objects\<close>, indexed by references, and the fields of the class hold
  references. \<open>nextRef\<close> is the next reference an object creation takes.
\<close>

record Branch =
  uuid :: string
  name :: string
  commit :: CID

type_synonym ref = nat

record VersionControl =
  sourceOfTruth :: KVStore
  workInProgress :: KVStore
  branches :: "ref list"
  archivedBranches :: "ref list"
  defaultBranch :: ref
  currentBranch :: ref
  workingRootCid :: CID
  objects :: "ref \<Rightarrow> Branch"
  nextRef :: ref

text \<open>The object memory before any Branch object is created.\<close>

definition noObjects :: "ref \<Rightarrow> Branch" where
  "noObjects = (\<lambda>_. \<lparr> uuid = [], name = [], commit = [] \<rparr>)"

text \<open>
  The constructor. \<open>u\<close> is the value \<^verbatim>\<open>uuidv4()\<close> returns and \<open>now\<close> the value
  \<^verbatim>\<open>new Date().toISOString()\<close> returns.
\<close>

definition init :: "(node \<Rightarrow> CID) \<Rightarrow> string \<Rightarrow> string \<Rightarrow> VersionControl" where
  "init cid u now =
    (let initialGrammarRoot = GrammarRoot [];
         (sot1, initialRootCid) = KVStore_put cid initialGrammarRoot Map.empty;
         initialCommit = Commit [] initialRootCid ''system'' now ''initial commit'';
         (sot2, initialCommitCid) = KVStore_put cid initialCommit sot1;
         newDefault = \<lparr> uuid = u, name = ''default'', commit = initialCommitCid \<rparr>
     in \<lparr> sourceOfTruth = sot2,
          workInProgress = Map.empty,
          branches = [0],
          archivedBranches = [],
          defaultBranch = 0,
          currentBranch = 0,
          workingRootCid = initialRootCid,
          objects = noObjects(0 := newDefault),
          nextRef = 1 \<rparr>)"

subsection \<open>Store operations\<close>

definition put :: "(node \<Rightarrow> CID) \<Rightarrow> node \<Rightarrow> VersionControl \<Rightarrow> VersionControl \<times> CID" where
  "put cid n st =
    (let (wip, k) = KVStore_put cid n (workInProgress st)
     in (st\<lparr>workInProgress := wip\<rparr>, k))"

text \<open>\<^verbatim>\<open>this.workInProgress.get(id) ?? this.sourceOfTruth.get(id)\<close>\<close>

definition resolve :: "VersionControl \<Rightarrow> CID \<Rightarrow> node option" where
  "resolve st k =
    (case KVStore_get (workInProgress st) k of
       Some v \<Rightarrow> Some v
     | None \<Rightarrow> KVStore_get (sourceOfTruth st) k)"

subsection \<open>Working state\<close>

definition getWorkingRoot :: "VersionControl \<Rightarrow> CID" where
  "getWorkingRoot st = workingRootCid st"

definition setWorkingRoot :: "CID \<Rightarrow> VersionControl \<Rightarrow> VersionControl" where
  "setWorkingRoot c st = st\<lparr>workingRootCid := c\<rparr>"

definition setRoot :: "(node \<Rightarrow> CID) \<Rightarrow> node \<Rightarrow> VersionControl \<Rightarrow> VersionControl" where
  "setRoot cid root st =
    (let (wip, k) = KVStore_put cid root (workInProgress st)
     in st\<lparr>workInProgress := wip, workingRootCid := k\<rparr>)"

subsection \<open>Branch operations\<close>

definition getCurrentBranch :: "VersionControl \<Rightarrow> ref" where
  "getCurrentBranch st = currentBranch st"

definition getBranches :: "VersionControl \<Rightarrow> ref list" where
  "getBranches st = branches st"

definition getDefaultBranch :: "VersionControl \<Rightarrow> ref" where
  "getDefaultBranch st = defaultBranch st"

definition getArchivedBranches :: "VersionControl \<Rightarrow> ref list" where
  "getArchivedBranches st = archivedBranches st"

text \<open>
  \<^verbatim>\<open>createBranch(name, options?)\<close>. \<open>u\<close> is the value \<^verbatim>\<open>uuidv4()\<close> returns,
  \<open>fromCommit\<close> is \<^verbatim>\<open>options?.fromCommit\<close> (\<open>None\<close> when absent) and \<open>carry\<close> is the truth
  value of \<^verbatim>\<open>options?.carryWorkingState\<close>. The result is the new state and the reference
  of the new Branch object.
\<close>

definition createBranch ::
  "string \<Rightarrow> string \<Rightarrow> CID option \<Rightarrow> bool \<Rightarrow> VersionControl \<Rightarrow> VersionControl \<times> ref" where
  "createBranch u nm fromCommit carry st =
    (let fromCommit' = (case fromCommit of Some c \<Rightarrow> c
                        | None \<Rightarrow> commit (objects st (currentBranch st)));
         newBranch = \<lparr> uuid = u, name = nm, commit = fromCommit' \<rparr>;
         r = nextRef st
     in if carry then
          (let sot = transferTo (workInProgress st) (sourceOfTruth st);
               currentWorkingRoot = workingRootCid st
           in (st\<lparr> sourceOfTruth := sot,
                   objects := (objects st)(r := newBranch),
                   nextRef := Suc r,
                   branches := branches st @ [r],
                   workInProgress := KVStore_clear,
                   currentBranch := r,
                   workingRootCid := currentWorkingRoot \<rparr>, r))
        else
          (st\<lparr> objects := (objects st)(r := newBranch),
                nextRef := Suc r,
                branches := branches st @ [r] \<rparr>, r))"

text \<open>
  \<^verbatim>\<open>checkout(branch)\<close>. The working tier is cleared and the current branch set before the
  head commit is read, so a failing checkout leaves those two changes behind: the error
  comes with the state it leaves.
\<close>

definition checkout :: "ref \<Rightarrow> VersionControl \<Rightarrow> (error \<times> VersionControl) + VersionControl" where
  "checkout branch st =
    (let st1 = st\<lparr> workInProgress := KVStore_clear, currentBranch := branch \<rparr>
     in case resolve st1 (commit (objects st1 branch)) of
          None \<Rightarrow> Inl (TypeError, st1)
        | Some c \<Rightarrow>
            (case content_cid c of
               None \<Rightarrow> Inl (IllTyped, st1)
             | Some root \<Rightarrow> Inr (st1\<lparr> workingRootCid := root \<rparr>)))"

text \<open>\<^verbatim>\<open>Array.prototype.findIndex\<close>: the first index whose element satisfies \<open>P\<close>, or -1.\<close>

fun findIndex :: "('a \<Rightarrow> bool) \<Rightarrow> 'a list \<Rightarrow> int" where
  "findIndex P [] = -1"
| "findIndex P (x # xs) =
    (if P x then 0 else (let i = findIndex P xs in if i = -1 then -1 else i + 1))"

text \<open>\<^verbatim>\<open>xs.splice(idx, 1)\<close> for an index in range: what is left in \<open>xs\<close>.\<close>

definition splice1 :: "int \<Rightarrow> 'a list \<Rightarrow> 'a list" where
  "splice1 idx xs = take (nat idx) xs @ drop (nat idx + 1) xs"

definition archiveBranch :: "ref \<Rightarrow> VersionControl \<Rightarrow> VersionControl" where
  "archiveBranch branch st =
    (let idx = findIndex (\<lambda>b. uuid (objects st b) = uuid (objects st branch)) (branches st)
     in if idx \<noteq> -1 \<and> name (objects st branch) \<noteq> ''default'' then
          st\<lparr> branches := splice1 idx (branches st),
               archivedBranches := archivedBranches st @ [branch] \<rparr>
        else st)"

subsection \<open>Commit operations\<close>

text \<open>
  \<^verbatim>\<open>commit(message, author)\<close>; \<open>now\<close> is the value \<^verbatim>\<open>new Date().toISOString()\<close>
  returns. The assignment \<^verbatim>\<open>this.currentBranch.commit = commitCid\<close> writes into the
  Branch object, so every holder of the reference sees the new head.
\<close>

definition commit_op ::
  "(node \<Rightarrow> CID) \<Rightarrow> string \<Rightarrow> string \<Rightarrow> string \<Rightarrow> VersionControl \<Rightarrow> VersionControl \<times> CID" where
  "commit_op cid now message author st =
    (let sot1 = transferTo (workInProgress st) (sourceOfTruth st);
         cur = currentBranch st;
         newCommit = Commit [commit (objects st cur)] (workingRootCid st) author now message;
         (sot2, commitCid) = KVStore_put cid newCommit sot1
     in (st\<lparr> sourceOfTruth := sot2,
             workInProgress := KVStore_clear,
             objects := (objects st)(cur := (objects st cur)\<lparr> commit := commitCid \<rparr>) \<rparr>,
         commitCid))"

text \<open>
  \<^verbatim>\<open>isDirty()\<close>. Reading \<^verbatim>\<open>.content\<close> of an unresolved head throws; the content of a
  node that is not a commit is not a string, hence different from the working root.
\<close>

definition isDirty :: "VersionControl \<Rightarrow> error + bool" where
  "isDirty st =
    (case resolve st (commit (objects st (currentBranch st))) of
       None \<Rightarrow> Inl TypeError
     | Some c \<Rightarrow> Inr (content_cid c \<noteq> Some (workingRootCid st)))"

subsection \<open>Tree mutation helpers\<close>

text \<open>
  \<^verbatim>\<open>replaceInTree(node, oldCid, newCid)\<close> on a node. The function copies the object entry
  by entry: a value equal to \<open>oldCid\<close> becomes \<open>newCid\<close>; in an array each item equal to
  \<open>oldCid\<close> becomes \<open>newCid\<close> and each other string item is kept; numbers, booleans and
  absent optional fields are kept. It never resolves a CID. The \<^verbatim>\<open>type\<close> tag is an entry
  like the others: when it equals \<open>oldCid\<close> the copy is no node of the grammar, and the
  result is \<open>None\<close>.
\<close>

definition replaceValue :: "CID \<Rightarrow> CID \<Rightarrow> string \<Rightarrow> string" where
  "replaceValue oldCid newCid v = (if v = oldCid then newCid else v)"

fun replaceEntries :: "CID \<Rightarrow> CID \<Rightarrow> node \<Rightarrow> node" where
  "replaceEntries old new (GrammarRoot cs) = GrammarRoot (map (replaceValue old new) cs)"
| "replaceEntries old new (Commit ps c a t m) =
     Commit (map (replaceValue old new) ps) (replaceValue old new c) (replaceValue old new a)
       (replaceValue old new t) (replaceValue old new m)"
| "replaceEntries old new (Folder n cs) =
     Folder (replaceValue old new n) (map (replaceValue old new) cs)"
| "replaceEntries old new (Document n t cs) =
     Document (map_option (replaceValue old new) n) (replaceValue old new t)
       (map (replaceValue old new) cs)"
| "replaceEntries old new (Heading l cs) = Heading l (map (replaceValue old new) cs)"
| "replaceEntries old new (Paragraph cs) = Paragraph (map (replaceValue old new) cs)"
| "replaceEntries old new (ListNode b cs) = ListNode b (map (replaceValue old new) cs)"
| "replaceEntries old new (ListItem cs) = ListItem (map (replaceValue old new) cs)"
| "replaceEntries old new (CodeBlock l v) =
     CodeBlock (map_option (replaceValue old new) l) (replaceValue old new v)"
| "replaceEntries old new (BlockQuote cs) = BlockQuote (map (replaceValue old new) cs)"
| "replaceEntries old new HorizontalRule = HorizontalRule"
| "replaceEntries old new (TextNode v) = TextNode (replaceValue old new v)"
| "replaceEntries old new (Emphasis cs) = Emphasis (map (replaceValue old new) cs)"
| "replaceEntries old new (Strong cs) = Strong (map (replaceValue old new) cs)"
| "replaceEntries old new (CodeSpan v) = CodeSpan (replaceValue old new v)"
| "replaceEntries old new (Link h cs) =
     Link (replaceValue old new h) (map (replaceValue old new) cs)"
| "replaceEntries old new (Image s a) = Image (replaceValue old new s) (replaceValue old new a)"

definition replaceInTree :: "node \<Rightarrow> CID \<Rightarrow> CID \<Rightarrow> node option" where
  "replaceInTree n oldCid newCid =
    (if node_type n = oldCid then None else Some (replaceEntries oldCid newCid n))"

text \<open>\<^verbatim>\<open>updateNode(oldCid, newNode)\<close>\<close>

definition updateNode ::
  "(node \<Rightarrow> CID) \<Rightarrow> CID \<Rightarrow> node \<Rightarrow> VersionControl \<Rightarrow> error + VersionControl \<times> CID" where
  "updateNode cid oldCid newNode st =
    (let (wip1, newCid) = KVStore_put cid newNode (workInProgress st);
         st1 = st\<lparr> workInProgress := wip1 \<rparr>
     in case resolve st1 (workingRootCid st1) of
          None \<Rightarrow> Inr (st1, newCid)
        | Some root \<Rightarrow>
            (case replaceInTree root oldCid newCid of
               None \<Rightarrow> Inl IllTyped
             | Some newRoot \<Rightarrow>
                 (let (wip2, newRootCid) = KVStore_put cid newRoot (workInProgress st1)
                  in Inr (st1\<lparr> workInProgress := wip2, workingRootCid := newRootCid \<rparr>,
                          newCid))))"

subsection \<open>Merge\<close>

text \<open>
  A JavaScript \<^verbatim>\<open>Map<string, CID>\<close> is an association list in insertion order:
  \<^verbatim>\<open>set\<close> on a key already present replaces the value in place and on a new key appends
  (\<open>AList.update\<close>), \<^verbatim>\<open>get\<close> is \<open>map_of\<close>, and iteration follows the list.

  The key of a child in \<^verbatim>\<open>mergeDirectories\<close>:
  \<^verbatim>\<open>child.type === 'folder' ? child.name : (child.name || 'untitled')\<close>.
\<close>

fun childKey :: "node \<Rightarrow> string" where
  "childKey (Folder n _) = n"
| "childKey child =
    (case node_name child of
       None \<Rightarrow> ''untitled''
     | Some n \<Rightarrow> if n = [] then ''untitled'' else n)"

text \<open>The two loops that fill \<^verbatim>\<open>currentChildren\<close> and \<^verbatim>\<open>sourceChildren\<close>.\<close>

definition childrenMap :: "VersionControl \<Rightarrow> CID list \<Rightarrow> (string \<times> CID) list" where
  "childrenMap st cids =
    foldl (\<lambda>m childCid.
             case resolve st childCid of
               None \<Rightarrow> m
             | Some child \<Rightarrow> AList.update (childKey child) childCid m) [] cids"

text \<open>
  The two loops that fill \<^verbatim>\<open>currentDirs\<close> and \<^verbatim>\<open>sourceDirs\<close> in
  \<^verbatim>\<open>mergeGrammarRoots\<close>: an entry needs a resolved node with a truthy name.
\<close>

definition dirsMap :: "VersionControl \<Rightarrow> CID list \<Rightarrow> (string \<times> CID) list" where
  "dirsMap st cids =
    foldl (\<lambda>m dirCid.
             case resolve st dirCid of
               None \<Rightarrow> m
             | Some dir \<Rightarrow>
                 (case node_name dir of
                    None \<Rightarrow> m
                  | Some n \<Rightarrow> if n = [] then m else AList.update n dirCid m)) [] cids"

text \<open>\<^verbatim>\<open>(child as any)?.type === 'folder'\<close> on the result of a resolve.\<close>

definition isFolder :: "node option \<Rightarrow> bool" where
  "isFolder child = (map_option node_type child = Some ''folder'')"

text \<open>
  The result of an operation that recurses through the store: \<open>None\<close> when the fuel (the
  bound on the depth of the recursion) runs out, otherwise an error or a value.
\<close>

type_synonym 'a result = "(error + 'a) option"

text \<open>
  The first loop of \<^verbatim>\<open>mergeDirectories\<close>, over the entries of \<^verbatim>\<open>currentChildren\<close>;
  \<open>rec\<close> is the recursive call. \<^verbatim>\<open>if (sourceChildCid)\<close> holds for a string that is not
  empty.
\<close>

fun mergeChildren ::
  "(VersionControl \<Rightarrow> CID \<Rightarrow> CID \<Rightarrow> (VersionControl \<times> CID) result) \<Rightarrow>
   (string \<times> CID) list \<Rightarrow> (string \<times> CID) list \<Rightarrow> VersionControl \<Rightarrow> CID list \<Rightarrow>
   (VersionControl \<times> CID list) result" where
  "mergeChildren rec sourceChildren [] st mergedChildren = Some (Inr (st, mergedChildren))"
| "mergeChildren rec sourceChildren ((nm, currentChildCid) # rest) st mergedChildren =
    (case map_of sourceChildren nm of
       None \<Rightarrow>
         mergeChildren rec sourceChildren rest st (mergedChildren @ [currentChildCid])
     | Some sourceChildCid \<Rightarrow>
         if sourceChildCid = [] then
           mergeChildren rec sourceChildren rest st (mergedChildren @ [currentChildCid])
         else if isFolder (resolve st currentChildCid) \<and> isFolder (resolve st sourceChildCid)
         then
           (case rec st currentChildCid sourceChildCid of
              None \<Rightarrow> None
            | Some (Inl e) \<Rightarrow> Some (Inl e)
            | Some (Inr (st', mergedChildCid)) \<Rightarrow>
                mergeChildren rec sourceChildren rest st' (mergedChildren @ [mergedChildCid]))
         else
           mergeChildren rec sourceChildren rest st (mergedChildren @ [sourceChildCid]))"

text \<open>
  The second loop: the entries of the source map whose name the first loop has not
  processed, in the order of the source map.
\<close>

definition sourceOnly :: "(string \<times> CID) list \<Rightarrow> (string \<times> CID) list \<Rightarrow> CID list" where
  "sourceOnly currentMap sourceMap =
    map snd (filter (\<lambda>(nm, c). nm \<notin> set (map fst currentMap)) sourceMap)"

text \<open>
  \<^verbatim>\<open>mergeDirectories(currentCid, sourceCid)\<close>. The merged folder takes
  \<^verbatim>\<open>(current as any).name\<close>; a current node without a name would give an object that
  is no Directory.
\<close>

primrec mergeDirectories ::
  "(node \<Rightarrow> CID) \<Rightarrow> nat \<Rightarrow> VersionControl \<Rightarrow> CID \<Rightarrow> CID \<Rightarrow> (VersionControl \<times> CID) result" where
  "mergeDirectories cid 0 st currentCid sourceCid = None"
| "mergeDirectories cid (Suc fuel) st currentCid sourceCid =
    (case resolve st currentCid of
       None \<Rightarrow> Some (Inr (st, sourceCid))
     | Some current \<Rightarrow>
         (case resolve st sourceCid of
            None \<Rightarrow> Some (Inr (st, currentCid))
          | Some source \<Rightarrow>
              (let currentChildren = childrenMap st (node_children current);
                   sourceChildren = childrenMap st (node_children source)
               in case mergeChildren (mergeDirectories cid fuel) sourceChildren
                         currentChildren st [] of
                    None \<Rightarrow> None
                  | Some (Inl e) \<Rightarrow> Some (Inl e)
                  | Some (Inr (st1, merged1)) \<Rightarrow>
                      (case node_name current of
                         None \<Rightarrow> Some (Inl IllTyped)
                       | Some n \<Rightarrow>
                           (let mergedChildren = merged1 @ sourceOnly currentChildren sourceChildren;
                                mergedDir = Folder n mergedChildren;
                                (sot, mergedCid) = KVStore_put cid mergedDir (sourceOfTruth st1)
                            in Some (Inr (st1\<lparr> sourceOfTruth := sot \<rparr>, mergedCid)))))))"

text \<open>The first loop of \<^verbatim>\<open>mergeGrammarRoots\<close>, over the entries of \<^verbatim>\<open>currentDirs\<close>.\<close>

fun mergeDirs ::
  "(VersionControl \<Rightarrow> CID \<Rightarrow> CID \<Rightarrow> (VersionControl \<times> CID) result) \<Rightarrow>
   (string \<times> CID) list \<Rightarrow> (string \<times> CID) list \<Rightarrow> VersionControl \<Rightarrow> CID list \<Rightarrow>
   (VersionControl \<times> CID list) result" where
  "mergeDirs rec sourceDirs [] st mergedDirCids = Some (Inr (st, mergedDirCids))"
| "mergeDirs rec sourceDirs ((nm, currentDirCid) # rest) st mergedDirCids =
    (case map_of sourceDirs nm of
       None \<Rightarrow> mergeDirs rec sourceDirs rest st (mergedDirCids @ [currentDirCid])
     | Some sourceDirCid \<Rightarrow>
         if sourceDirCid = [] then
           mergeDirs rec sourceDirs rest st (mergedDirCids @ [currentDirCid])
         else
           (case rec st currentDirCid sourceDirCid of
              None \<Rightarrow> None
            | Some (Inl e) \<Rightarrow> Some (Inl e)
            | Some (Inr (st', mergedDirCid)) \<Rightarrow>
                mergeDirs rec sourceDirs rest st' (mergedDirCids @ [mergedDirCid])))"

text \<open>\<^verbatim>\<open>mergeGrammarRoots(currentCid, sourceCid)\<close>\<close>

definition mergeGrammarRoots ::
  "(node \<Rightarrow> CID) \<Rightarrow> nat \<Rightarrow> VersionControl \<Rightarrow> CID \<Rightarrow> CID \<Rightarrow> (VersionControl \<times> CID) result" where
  "mergeGrammarRoots cid fuel st currentCid sourceCid =
    (case (resolve st currentCid, resolve st sourceCid) of
       (None, None) \<Rightarrow>
         (let (sot, emptyCid) = KVStore_put cid (GrammarRoot []) (sourceOfTruth st)
          in Some (Inr (st\<lparr> sourceOfTruth := sot \<rparr>, emptyCid)))
     | (None, Some source) \<Rightarrow> Some (Inr (st, sourceCid))
     | (Some current, None) \<Rightarrow> Some (Inr (st, currentCid))
     | (Some current, Some source) \<Rightarrow>
         (case content_elements current of
            Inl e \<Rightarrow> Some (Inl e)
          | Inr currentContent \<Rightarrow>
              (case content_elements source of
                 Inl e \<Rightarrow> Some (Inl e)
               | Inr sourceContent \<Rightarrow>
                   (let currentDirs = dirsMap st currentContent;
                        sourceDirs = dirsMap st sourceContent
                    in case mergeDirs (mergeDirectories cid fuel) sourceDirs currentDirs st [] of
                         None \<Rightarrow> None
                       | Some (Inl e) \<Rightarrow> Some (Inl e)
                       | Some (Inr (st1, merged1)) \<Rightarrow>
                           (let mergedDirCids = merged1 @ sourceOnly currentDirs sourceDirs;
                                mergedRoot = GrammarRoot mergedDirCids;
                                (sot, mergedCid) = KVStore_put cid mergedRoot (sourceOfTruth st1)
                            in Some (Inr (st1\<lparr> sourceOfTruth := sot \<rparr>, mergedCid)))))))"

text \<open>
  \<^verbatim>\<open>merge(sourceBranch)\<close>; \<open>now\<close> is the value \<^verbatim>\<open>new Date().toISOString()\<close> returns.
  Reading \<^verbatim>\<open>.content\<close> of an unresolved head commit throws before anything is changed.
\<close>

definition merge ::
  "(node \<Rightarrow> CID) \<Rightarrow> string \<Rightarrow> nat \<Rightarrow> ref \<Rightarrow> VersionControl \<Rightarrow> VersionControl result" where
  "merge cid now fuel sourceBranch st =
    (let cur = objects st (currentBranch st);
         src = objects st sourceBranch
     in if uuid src = uuid cur then Some (Inr st)
        else if commit cur = commit src then Some (Inr st)
        else
          (case resolve st (commit cur) of
             None \<Rightarrow> Some (Inl TypeError)
           | Some currentCommit \<Rightarrow>
               (case resolve st (commit src) of
                  None \<Rightarrow> Some (Inl TypeError)
                | Some sourceCommit \<Rightarrow>
                    (case (content_cid currentCommit, content_cid sourceCommit) of
                       (Some currentContent, Some sourceContent) \<Rightarrow>
                         (case mergeGrammarRoots cid fuel st currentContent sourceContent of
                            None \<Rightarrow> None
                          | Some (Inl e) \<Rightarrow> Some (Inl e)
                          | Some (Inr (st1, mergedContent)) \<Rightarrow>
                              (let mergeCommit =
                                     Commit [commit cur, commit src] mergedContent ''merge'' now
                                       (''Merge '' @ [CHR 0x27] @ name src @ [CHR 0x27] @
                                        '' into '' @ [CHR 0x27] @ name cur @ [CHR 0x27]);
                                   (sot, mergeCid) =
                                     KVStore_put cid mergeCommit (sourceOfTruth st1)
                               in Some (Inr (st1\<lparr>
                                    sourceOfTruth := sot,
                                    objects := (objects st1)(currentBranch st1 :=
                                      (objects st1 (currentBranch st1))\<lparr> commit := mergeCid \<rparr>),
                                    workingRootCid := mergedContent,
                                    workInProgress := KVStore_clear \<rparr>))))
                     | _ \<Rightarrow> Some (Inl IllTyped)))))"

section \<open>History view\<close>

text \<open>
  The functions of \<^verbatim>\<open>HistoryView\<close> take the resolver as an argument and read only the
  \<^verbatim>\<open>commit\<close> field of a branch.

  \<^verbatim>\<open>queue.push(...commit.parents)\<close>: the parents of a commit; on a node with no
  \<^verbatim>\<open>parents\<close> field the spread of \<^verbatim>\<open>undefined\<close> throws.
\<close>

type_synonym Resolver = "CID \<Rightarrow> node option"

fun parents_elements :: "node \<Rightarrow> error + CID list" where
  "parents_elements (Commit ps _ _ _ _) = Inr ps"
| "parents_elements _ = Inl TypeError"

text \<open>
  One of the two \<^verbatim>\<open>if (queue.length > 0) { ... }\<close> blocks in the loop of
  \<^verbatim>\<open>findCommonAncestor\<close>: \<open>Inl\<close> when the block leaves the function (with a return
  value or an exception), \<open>Inr\<close> with the new queue and visited set otherwise.
\<close>

fun visitSide ::
  "Resolver \<Rightarrow> CID list \<Rightarrow> CID set \<Rightarrow> CID set \<Rightarrow>
   (error + CID option) + (CID list \<times> CID set)" where
  "visitSide resolver [] visitedOwn visitedOther = Inr ([], visitedOwn)"
| "visitSide resolver (c # queue) visitedOwn visitedOther =
    (if c \<in> visitedOther then Inl (Inr (Some c))
     else
       (case resolver c of
          None \<Rightarrow> Inr (queue, insert c visitedOwn)
        | Some n \<Rightarrow>
            (case parents_elements n of
               Inl e \<Rightarrow> Inl (Inl e)
             | Inr ps \<Rightarrow> Inr (queue @ ps, insert c visitedOwn))))"

text \<open>
  The \<^verbatim>\<open>while\<close> loop of \<^verbatim>\<open>findCommonAncestor\<close>. It revisits a commit each time it is
  queued, so it need not terminate: \<open>None\<close> is the loop that never returns.
\<close>

partial_function (option) findCommonAncestor_loop ::
  "Resolver \<Rightarrow> CID list \<Rightarrow> CID list \<Rightarrow> CID set \<Rightarrow> CID set \<Rightarrow> (error + CID option) option" where
  "findCommonAncestor_loop resolver queueA queueB visitedA visitedB =
    (if queueA = [] \<and> queueB = [] then Some (Inr None)
     else
       (case visitSide resolver queueA visitedA visitedB of
          Inl r \<Rightarrow> Some r
        | Inr (queueA', visitedA') \<Rightarrow>
            (case visitSide resolver queueB visitedB visitedA' of
               Inl r \<Rightarrow> Some r
             | Inr (queueB', visitedB') \<Rightarrow>
                 findCommonAncestor_loop resolver queueA' queueB' visitedA' visitedB')))"

definition findCommonAncestor ::
  "Branch \<Rightarrow> Branch \<Rightarrow> Resolver \<Rightarrow> (error + CID option) option" where
  "findCommonAncestor branchA branchB resolver =
    findCommonAncestor_loop resolver [commit branchA] [commit branchB] {} {}"

text \<open>The \<^verbatim>\<open>while\<close> loop of \<^verbatim>\<open>isAncestor\<close>.\<close>

partial_function (option) isAncestor_loop ::
  "Resolver \<Rightarrow> CID \<Rightarrow> CID list \<Rightarrow> CID set \<Rightarrow> (error + bool) option" where
  "isAncestor_loop resolver potentialAncestor queue visited =
    (case queue of
       [] \<Rightarrow> Some (Inr False)
     | c # rest \<Rightarrow>
         if c = potentialAncestor then Some (Inr True)
         else if c \<in> visited then isAncestor_loop resolver potentialAncestor rest visited
         else
           (case resolver c of
              None \<Rightarrow> isAncestor_loop resolver potentialAncestor rest (insert c visited)
            | Some n \<Rightarrow>
                (case parents_elements n of
                   Inl e \<Rightarrow> Some (Inl e)
                 | Inr ps \<Rightarrow>
                     isAncestor_loop resolver potentialAncestor (rest @ ps) (insert c visited))))"

definition isAncestor :: "CID \<Rightarrow> CID \<Rightarrow> Resolver \<Rightarrow> (error + bool) option" where
  "isAncestor potentialAncestor descendant resolver =
    isAncestor_loop resolver potentialAncestor [descendant] {}"

section \<open>A collision-free content identifier\<close>

text \<open>
  \<^verbatim>\<open>cid\<close> hashes a canonical serialisation of the node. For running the model on
  concrete trees, \<open>plainCid\<close> is such a serialisation taken as its own digest: the fields
  of the node in a fixed order, the tag first, each written as its length in unary, a
  \<open>0\<close> and the field itself. Two nodes with the same \<open>plainCid\<close> are equal.
\<close>

definition encStr :: "string \<Rightarrow> string" where
  "encStr s = replicate (length s) (CHR ''1'') @ CHR ''0'' # s"

definition encList :: "string list \<Rightarrow> string" where
  "encList xs = concat (map encStr xs)"

fun encOpt :: "string option \<Rightarrow> string" where
  "encOpt None = ''N''"
| "encOpt (Some s) = CHR ''S'' # s"

fun nodeFields :: "node \<Rightarrow> string list" where
  "nodeFields (GrammarRoot cs) = ''grammar_root'' # cs"
| "nodeFields (Commit ps c a t m) = ''commit'' # c # a # t # m # ps"
| "nodeFields (Folder n cs) = ''folder'' # n # cs"
| "nodeFields (Document n t cs) = ''document'' # encOpt n # t # cs"
| "nodeFields (Heading l cs) = ''heading'' # replicate l (CHR ''1'') # cs"
| "nodeFields (Paragraph cs) = ''paragraph'' # cs"
| "nodeFields (ListNode b cs) = ''list'' # (if b then ''T'' else ''F'') # cs"
| "nodeFields (ListItem cs) = ''list_item'' # cs"
| "nodeFields (CodeBlock l v) = [''code_block'', encOpt l, v]"
| "nodeFields (BlockQuote cs) = ''blockquote'' # cs"
| "nodeFields HorizontalRule = [''horizontal_rule'']"
| "nodeFields (TextNode v) = [''text'', v]"
| "nodeFields (Emphasis cs) = ''emphasis'' # cs"
| "nodeFields (Strong cs) = ''strong'' # cs"
| "nodeFields (CodeSpan v) = [''code_span'', v]"
| "nodeFields (Link h cs) = ''link'' # h # cs"
| "nodeFields (Image s a) = [''image'', s, a]"

definition plainCid :: "node \<Rightarrow> CID" where
  "plainCid n = encList (nodeFields n)"

section \<open>Concrete engine states\<close>

text \<open>A fresh engine, and the same engine after one \<^verbatim>\<open>put\<close>.\<close>

definition ex_init :: VersionControl where
  "ex_init = init plainCid ''u0'' ''t0''"

definition ex_note :: node where
  "ex_note = Document (Some ''todo'') ''t1'' []"

definition ex_noted :: VersionControl where
  "ex_noted = fst (put plainCid ex_note ex_init)"

text \<open>The names of the live branches, in the order of the branch list.\<close>

definition liveNames :: "VersionControl \<Rightarrow> string list" where
  "liveNames st = map (\<lambda>b. name (objects st b)) (branches st)"

text \<open>
  A fresh engine after \<^verbatim>\<open>createBranch("feature")\<close>, and after
  \<^verbatim>\<open>createBranch("default")\<close>.
\<close>

definition ex_branched :: VersionControl where
  "ex_branched = fst (createBranch ''u1'' ''feature'' None False ex_init)"

definition ex_twice :: VersionControl where
  "ex_twice = fst (createBranch ''u1'' ''default'' None False ex_init)"

text \<open>
  The engine with the branch \<open>feature\<close> after a commit on the default branch, the commits
  involved, and the state a merge of \<open>feature\<close> into the default branch leaves.
\<close>

definition ex_ahead :: VersionControl where
  "ex_ahead = fst (commit_op plainCid ''t1'' ''work'' ''alice'' ex_branched)"

definition ex_commit0 :: node where
  "ex_commit0 = Commit [] (plainCid (GrammarRoot [])) ''system'' ''t0'' ''initial commit''"

definition ex_commit1 :: node where
  "ex_commit1 = Commit [plainCid ex_commit0] (plainCid (GrammarRoot [])) ''alice'' ''t1'' ''work''"

definition ex_mergeCommit :: node where
  "ex_mergeCommit =
     Commit [plainCid ex_commit1, plainCid ex_commit0] (plainCid (GrammarRoot [])) ''merge'' ''t2''
       (''Merge '' @ [CHR 0x27] @ ''feature'' @ [CHR 0x27] @
        '' into '' @ [CHR 0x27] @ ''default'' @ [CHR 0x27])"

definition ex_merged :: VersionControl where
  "ex_merged = ex_ahead\<lparr>
     sourceOfTruth := (sourceOfTruth ex_ahead)(plainCid (GrammarRoot []) \<mapsto> GrammarRoot [],
        plainCid ex_mergeCommit \<mapsto> ex_mergeCommit),
     objects := (objects ex_ahead)(0 := (objects ex_ahead 0)\<lparr> commit := plainCid ex_mergeCommit \<rparr>),
     workingRootCid := plainCid (GrammarRoot []),
     workInProgress := Map.empty \<rparr>"

section \<open>Ancestors in a commit graph\<close>

text \<open>
  The ancestors of a commit under a resolver: the commit itself and, for every ancestor
  that resolves to a commit, the parents of that commit. \<open>commitsOnly\<close> says that every
  CID of a set that resolves, resolves to a commit.
\<close>

inductive_set ancestors :: "Resolver \<Rightarrow> CID \<Rightarrow> CID set"
  for resolver :: Resolver and c :: CID where
  self: "c \<in> ancestors resolver c"
| parent: "x \<in> ancestors resolver c \<Longrightarrow> resolver x = Some (Commit ps content author ts msg) \<Longrightarrow>
           p \<in> set ps \<Longrightarrow> p \<in> ancestors resolver c"

definition commitsOnly :: "Resolver \<Rightarrow> CID set \<Rightarrow> bool" where
  "commitsOnly resolver R = (\<forall>x\<in>R. \<forall>n. resolver x = Some n \<longrightarrow> node_type n = ''commit'')"

text \<open>
  A history \<open>C0 \<rightarrow> C1 \<rightarrow> C2\<close>, \<open>C1 \<rightarrow> C3\<close> in a store, with branch \<open>A\<close> at \<open>C2\<close> and
  branch \<open>B\<close> at \<open>C3\<close>.
\<close>

definition ex_commit2 :: node where
  "ex_commit2 = Commit [plainCid ex_commit1] (plainCid (GrammarRoot [])) ''alice'' ''t2'' ''on A''"

definition ex_commit3 :: node where
  "ex_commit3 = Commit [plainCid ex_commit1] (plainCid (GrammarRoot [])) ''bob'' ''t3'' ''on B''"

definition ex_history :: Resolver where
  "ex_history = [plainCid ex_commit0 \<mapsto> ex_commit0, plainCid ex_commit1 \<mapsto> ex_commit1,
                 plainCid ex_commit2 \<mapsto> ex_commit2, plainCid ex_commit3 \<mapsto> ex_commit3]"

definition ex_branchA :: Branch where
  "ex_branchA = \<lparr> uuid = ''ua'', name = ''A'', commit = plainCid ex_commit2 \<rparr>"

definition ex_branchB :: Branch where
  "ex_branchB = \<lparr> uuid = ''ub'', name = ''B'', commit = plainCid ex_commit3 \<rparr>"

section \<open>Content-addressed stores\<close>

text \<open>
  A state is consistent when every entry of both tiers is stored under the CID of its
  value, as \<^verbatim>\<open>KVStore.put\<close> stores it. \<open>storeExtends st st'\<close> says that every CID that
  resolves in \<open>st\<close> resolves to the same node in \<open>st'\<close>. \<open>keyedAs st nm c\<close> says that \<open>c\<close>
  resolves to a node that \<^verbatim>\<open>mergeDirectories\<close> files under the name \<open>nm\<close>.
\<close>

definition consistent :: "(node \<Rightarrow> CID) \<Rightarrow> VersionControl \<Rightarrow> bool" where
  "consistent cid st =
    (\<forall>k n. (workInProgress st k = Some n \<longrightarrow> cid n = k) \<and>
           (sourceOfTruth st k = Some n \<longrightarrow> cid n = k))"

definition storeExtends :: "VersionControl \<Rightarrow> VersionControl \<Rightarrow> bool" where
  "storeExtends st st' = (\<forall>k v. resolve st k = Some v \<longrightarrow> resolve st' k = Some v)"

definition keyedAs :: "VersionControl \<Rightarrow> string \<Rightarrow> CID \<Rightarrow> bool" where
  "keyedAs st nm c = (\<exists>child. resolve st c = Some child \<and> childKey child = nm)"






text \<open>
  A tree \<open>notes/todo\<close> as the working root of a fresh engine, and a renamed version of the
  document.
\<close>

definition ex_notes :: node where
  "ex_notes = Folder ''notes'' [plainCid ex_note]"

definition ex_root :: node where
  "ex_root = GrammarRoot [plainCid ex_notes]"

definition ex_tree :: VersionControl where
  "ex_tree =
     setRoot plainCid ex_root (fst (put plainCid ex_notes (fst (put plainCid ex_note ex_init))))"

definition ex_renamed :: node where
  "ex_renamed = Document (Some ''done'') ''t1'' []"

text \<open>
  \<open>addsTrees st st'\<close>: the state \<open>st'\<close> is \<open>st\<close> with a source-of-truth tier in which
  every entry is an entry of \<open>st\<close> or a folder or a grammar root.
\<close>

definition addsTrees :: "VersionControl \<Rightarrow> VersionControl \<Rightarrow> bool" where
  "addsTrees st st' =
    (st' = st\<lparr> sourceOfTruth := sourceOfTruth st' \<rparr> \<and>
     (\<forall>k n. sourceOfTruth st' k = Some n \<longrightarrow>
        sourceOfTruth st k = Some n \<or> node_type n = ''folder'' \<or> node_type n = ''grammar_root''))"

text \<open>\<open>namedDir st c\<close>: the CID resolves to a node that has a name.\<close>

definition namedDir :: "VersionControl \<Rightarrow> CID \<Rightarrow> bool" where
  "namedDir st c = (\<exists>dir. resolve st c = Some dir \<and> node_name dir \<noteq> None)"

text \<open>
  The end-to-end scenario of the specification: a directory \<open>notes\<close> at the root, a
  document \<open>todo\<close> in it, a commit, a branch \<open>feature\<close> that carries the working state, an
  edit of \<open>todo\<close> on that branch, a commit, a checkout of the default branch, and a merge
  of \<open>feature\<close>.
\<close>

definition e2e_notes0 :: node where
  "e2e_notes0 = Folder ''notes'' []"

definition e2e_todo2 :: node where
  "e2e_todo2 = Document (Some ''todo'') ''t1'' [plainCid (Paragraph [])]"

definition e2e_notes2 :: node where
  "e2e_notes2 = Folder ''notes'' [plainCid e2e_todo2]"

definition e2e_root2 :: node where
  "e2e_root2 = GrammarRoot [plainCid e2e_notes2]"

definition e2e_dir :: VersionControl where
  "e2e_dir = setRoot plainCid (GrammarRoot [plainCid e2e_notes0])
               (fst (put plainCid e2e_notes0 ex_init))"

definition e2e_doc :: VersionControl where
  "e2e_doc = (case updateNode plainCid (plainCid e2e_notes0) ex_notes
                     (fst (put plainCid ex_note e2e_dir)) of
                Inr (st, c) \<Rightarrow> st | Inl e \<Rightarrow> e2e_dir)"

definition e2e_committed :: VersionControl where
  "e2e_committed = fst (commit_op plainCid ''t2'' ''add todo'' ''alice'' e2e_doc)"

definition e2e_feature :: VersionControl where
  "e2e_feature = fst (createBranch ''u1'' ''feature'' None True e2e_committed)"

definition e2e_edited :: VersionControl where
  "e2e_edited = setRoot plainCid e2e_root2
     (fst (put plainCid e2e_notes2 (fst (put plainCid e2e_todo2
        (fst (put plainCid (Paragraph []) e2e_feature))))))"

definition e2e_committed2 :: VersionControl where
  "e2e_committed2 = fst (commit_op plainCid ''t3'' ''edit'' ''alice'' e2e_edited)"

definition e2e_default :: VersionControl where
  "e2e_default = (case checkout 0 e2e_committed2 of Inr st \<Rightarrow> st | Inl e \<Rightarrow> e2e_committed2)"

definition e2e_commit1 :: node where
  "e2e_commit1 = Commit [plainCid ex_commit0] (plainCid ex_root) ''alice'' ''t2'' ''add todo''"

definition e2e_commit2 :: node where
  "e2e_commit2 = Commit [plainCid e2e_commit1] (plainCid e2e_root2) ''alice'' ''t3'' ''edit''"

text \<open>
  Commits that the caller builds and hands to \<open>put\<close>: one with three parents and one with
  none, both over the empty root; \<open>ex_handed\<close> is the fresh engine after the two calls of
  \<open>put\<close>, and \<open>ex_foreign\<close> the engine after the \<open>commit\<close> that follows.
\<close>

definition ex_foreign3 :: node where
  "ex_foreign3 = Commit [plainCid ex_commit0, plainCid ex_commit0, plainCid ex_commit0]
     (plainCid (GrammarRoot [])) ''alice'' ''t1'' ''octopus''"

definition ex_foreign0 :: node where
  "ex_foreign0 = Commit [] (plainCid (GrammarRoot [])) ''alice'' ''t1'' ''orphan''"

definition ex_handed :: VersionControl where
  "ex_handed = fst (put plainCid ex_foreign0 (fst (put plainCid ex_foreign3 ex_init)))"

definition ex_foreign :: VersionControl where
  "ex_foreign = fst (commit_op plainCid ''t2'' ''work'' ''alice'' ex_handed)"

section \<open>Properties of the content identifier\<close>

lemma replicate_sep_eq:
  "replicate n x @ y # ys = replicate m x @ y # zs \<Longrightarrow> x \<noteq> y \<Longrightarrow> n = m \<and> ys = zs"
proof (induction n arbitrary: m)
  case 0
  then show ?case by (cases m) auto
next
  case (Suc n)
  then show ?case by (cases m) auto
qed

lemma encStr_append_eq:
  assumes "encStr a @ r = encStr b @ r'"
  shows "a = b \<and> r = r'"
proof -
  from assms have "replicate (length a) (CHR ''1'') @ CHR ''0'' # (a @ r)
      = replicate (length b) (CHR ''1'') @ CHR ''0'' # (b @ r')"
    by (simp add: encStr_def)
  then have "length a = length b \<and> a @ r = b @ r'"
    by (rule replicate_sep_eq) simp
  then show ?thesis by auto
qed

lemma encStr_not_Nil: "encStr s \<noteq> []"
  by (simp add: encStr_def)

lemma encList_inj: "encList xs = encList ys \<Longrightarrow> xs = ys"
proof (induction xs arbitrary: ys)
  case Nil
  then show ?case by (cases ys) (auto simp: encList_def encStr_not_Nil)
next
  case (Cons x xs)
  show ?case
  proof (cases ys)
    case Nil
    with Cons.prems show ?thesis by (auto simp: encList_def encStr_not_Nil)
  next
    case (Cons y ys')
    with Cons.prems have "encStr x @ encList xs = encStr y @ encList ys'"
      by (simp add: encList_def)
    then have "x = y \<and> encList xs = encList ys'" by (rule encStr_append_eq)
    with Cons.IH Cons show ?thesis by simp
  qed
qed

lemma encOpt_inj: "encOpt a = encOpt b \<Longrightarrow> a = b"
  by (cases a; cases b) auto

lemma replicate_one_inj: "replicate n (CHR ''1'') = replicate m (CHR ''1'') \<Longrightarrow> n = m"
  by (metis length_replicate)

lemma nodeFields_inj: "nodeFields a = nodeFields b \<Longrightarrow> a = b"
  by (cases a; cases b) (auto dest: encOpt_inj replicate_one_inj split: if_splits)

lemma plainCid_inj: "inj plainCid"
  by (rule injI) (auto simp: plainCid_def dest!: encList_inj nodeFields_inj)

lemma plainCid_eq_iff: "(plainCid a = plainCid b) = (a = b)"
  using plainCid_inj by (auto dest: injD)

lemma nodeFields_not_Nil: "nodeFields n \<noteq> []"
  by (cases n) auto

lemma plainCid_not_Nil: "plainCid n \<noteq> []"
  by (cases "nodeFields n") (auto simp: plainCid_def encList_def encStr_not_Nil nodeFields_not_Nil)

section \<open>Resolving a CID\<close>

lemma ex_noted_wip: "workInProgress ex_noted = [plainCid ex_note \<mapsto> ex_note]"
  by (simp add: ex_noted_def ex_init_def put_def init_def KVStore_put_def Let_def)

lemma ex_noted_sot:
  "sourceOfTruth ex_noted =
     [plainCid (GrammarRoot []) \<mapsto> GrammarRoot [],
      plainCid (Commit [] (plainCid (GrammarRoot [])) ''system'' ''t0'' ''initial commit'') \<mapsto>
        Commit [] (plainCid (GrammarRoot [])) ''system'' ''t0'' ''initial commit'']"
  by (simp add: ex_noted_def ex_init_def put_def init_def KVStore_put_def Let_def)

text \<open>
  C7. \<open>resolve\<close> returns the value of the working tier when that tier holds the CID,
  otherwise the value of the source-of-truth tier when that tier holds it, otherwise
  nothing. Its result is an optional node for every state and every CID: there is no
  input on which it throws.
\<close>

theorem resolve_tiers:
  "(workInProgress st k = Some v \<longrightarrow> resolve st k = Some v) \<and>
   (workInProgress st k = None \<and> sourceOfTruth st k = Some v \<longrightarrow> resolve st k = Some v) \<and>
   (workInProgress st k = None \<and> sourceOfTruth st k = None \<longrightarrow> resolve st k = None)"
  by (simp add: resolve_def KVStore_get_def)

theorem resolve_tiers_witness:
  "workInProgress ex_noted (plainCid ex_note) = Some ex_note \<and>
   resolve ex_noted (plainCid ex_note) = Some ex_note \<and>
   workInProgress ex_noted (plainCid (GrammarRoot [])) = None \<and>
   sourceOfTruth ex_noted (plainCid (GrammarRoot [])) = Some (GrammarRoot []) \<and>
   resolve ex_noted (plainCid (GrammarRoot [])) = Some (GrammarRoot []) \<and>
   workInProgress ex_noted (plainCid HorizontalRule) = None \<and>
   sourceOfTruth ex_noted (plainCid HorizontalRule) = None \<and>
   resolve ex_noted (plainCid HorizontalRule) = None"
proof -
  have w1: "workInProgress ex_noted (plainCid ex_note) = Some ex_note"
    by (simp add: ex_noted_wip)
  have w2: "workInProgress ex_noted (plainCid (GrammarRoot [])) = None"
    by (simp add: ex_noted_wip plainCid_eq_iff ex_note_def)
  have s2: "sourceOfTruth ex_noted (plainCid (GrammarRoot [])) = Some (GrammarRoot [])"
    by (simp add: ex_noted_sot plainCid_eq_iff)
  have w3: "workInProgress ex_noted (plainCid HorizontalRule) = None"
    by (simp add: ex_noted_wip plainCid_eq_iff ex_note_def)
  have s3: "sourceOfTruth ex_noted (plainCid HorizontalRule) = None"
    by (simp add: ex_noted_sot plainCid_eq_iff)
  from w1 w2 s2 w3 s3
    resolve_tiers [of ex_noted "plainCid ex_note" ex_note]
    resolve_tiers [of ex_noted "plainCid (GrammarRoot [])" "GrammarRoot []"]
    resolve_tiers [of ex_noted "plainCid HorizontalRule" HorizontalRule]
  show ?thesis by simp
qed

section \<open>Ancestry\<close>

text \<open>
  C9. \<open>isAncestor\<close> is reflexive: for every CID \<open>c\<close> and every resolver,
  \<open>isAncestor c c\<close> returns true, whether or not \<open>c\<close> resolves, since the first element
  taken from the queue is compared with the candidate before anything is resolved.
\<close>

theorem isAncestor_reflexive: "isAncestor c c resolver = Some (Inr True)"
  by (simp add: isAncestor_def isAncestor_loop.simps [of resolver c "[c]"])

theorem isAncestor_reflexive_witness:
  "isAncestor ''c0'' ''c0'' (\<lambda>k. None) = Some (Inr True)"
  by (rule isAncestor_reflexive)

section \<open>Facts about the engine operations and the concrete states\<close>

lemma ex_init_simps:
  "branches ex_init = [0]" "archivedBranches ex_init = []" "currentBranch ex_init = 0"
  "defaultBranch ex_init = 0" "nextRef ex_init = 1"
  "objects ex_init 0 = \<lparr> uuid = ''u0'', name = ''default'',
     commit = plainCid (Commit [] (plainCid (GrammarRoot [])) ''system'' ''t0'' ''initial commit'') \<rparr>"
  "workingRootCid ex_init = plainCid (GrammarRoot [])"
  "workInProgress ex_init = Map.empty"
  by (simp_all add: ex_init_def init_def KVStore_put_def Let_def)

lemma ex_branched_simps:
  "branches ex_branched = [0, Suc 0]" "currentBranch ex_branched = 0"
  "objects ex_branched 0 = objects ex_init 0"
  "objects ex_branched (Suc 0) = \<lparr> uuid = ''u1'', name = ''feature'', commit = commit (objects ex_init 0) \<rparr>"
  "archivedBranches ex_branched = []"
  by (simp_all add: ex_branched_def createBranch_def Let_def ex_init_simps)

lemma ex_twice_simps:
  "branches ex_twice = [0, Suc 0]" "currentBranch ex_twice = 0" "defaultBranch ex_twice = 0"
  "objects ex_twice 0 = objects ex_init 0"
  "objects ex_twice (Suc 0) = \<lparr> uuid = ''u1'', name = ''default'', commit = commit (objects ex_init 0) \<rparr>"
  "archivedBranches ex_twice = []"
  by (simp_all add: ex_twice_def createBranch_def Let_def ex_init_simps)

lemma put_fields:
  "workInProgress (fst (put cid n s)) = (workInProgress s)(cid n \<mapsto> n)"
  "sourceOfTruth (fst (put cid n s)) = sourceOfTruth s"
  "objects (fst (put cid n s)) = objects s"
  "currentBranch (fst (put cid n s)) = currentBranch s"
  "workingRootCid (fst (put cid n s)) = workingRootCid s"
  "snd (put cid n s) = cid n"
  by (simp_all add: put_def KVStore_put_def Let_def)

lemma setWorkingRoot_fields:
  "workInProgress (setWorkingRoot r s) = workInProgress s"
  "sourceOfTruth (setWorkingRoot r s) = sourceOfTruth s"
  "objects (setWorkingRoot r s) = objects s"
  "currentBranch (setWorkingRoot r s) = currentBranch s"
  "workingRootCid (setWorkingRoot r s) = r"
  by (simp_all add: setWorkingRoot_def)

lemma setRoot_fields:
  "workInProgress (setRoot cid g s) = (workInProgress s)(cid g \<mapsto> g)"
  "sourceOfTruth (setRoot cid g s) = sourceOfTruth s"
  "objects (setRoot cid g s) = objects s"
  "currentBranch (setRoot cid g s) = currentBranch s"
  "workingRootCid (setRoot cid g s) = cid g"
  by (simp_all add: setRoot_def KVStore_put_def Let_def)

lemma commit_op_fields:
  "snd (commit_op cid now message author st) =
     cid (Commit [commit (objects st (currentBranch st))] (workingRootCid st) author now message)"
  "sourceOfTruth (fst (commit_op cid now message author st)) =
     (sourceOfTruth st ++ workInProgress st)
       (cid (Commit [commit (objects st (currentBranch st))] (workingRootCid st) author now message)
        \<mapsto> Commit [commit (objects st (currentBranch st))] (workingRootCid st) author now message)"
  "workInProgress (fst (commit_op cid now message author st)) = Map.empty"
  "currentBranch (fst (commit_op cid now message author st)) = currentBranch st"
  "workingRootCid (fst (commit_op cid now message author st)) = workingRootCid st"
  "objects (fst (commit_op cid now message author st)) =
     (objects st)(currentBranch st := (objects st (currentBranch st))\<lparr> commit :=
       cid (Commit [commit (objects st (currentBranch st))] (workingRootCid st) author now message) \<rparr>)"
  "branches (fst (commit_op cid now message author st)) = branches st"
  "archivedBranches (fst (commit_op cid now message author st)) = archivedBranches st"
  "defaultBranch (fst (commit_op cid now message author st)) = defaultBranch st"
  "nextRef (fst (commit_op cid now message author st)) = nextRef st"
  by (simp_all add: commit_op_def KVStore_put_def transferTo_def KVStore_clear_def Let_def)

lemma resolve_unfold:
  "resolve s k = (case workInProgress s k of Some v \<Rightarrow> Some v | None \<Rightarrow> sourceOfTruth s k)"
  by (simp add: resolve_def KVStore_get_def split: option.splits)

lemma isDirty_commit_head:
  "resolve s (commit (objects s (currentBranch s))) = Some (Commit ps c a t m) \<Longrightarrow>
   isDirty s = Inr (c \<noteq> workingRootCid s)"
  by (simp add: isDirty_def)

lemma ex_init_sot:
  "sourceOfTruth ex_init =
     [plainCid (GrammarRoot []) \<mapsto> GrammarRoot [], plainCid ex_commit0 \<mapsto> ex_commit0]"
  by (simp add: ex_init_def init_def KVStore_put_def Let_def ex_commit0_def)

lemma ex_init_head: "commit (objects ex_init 0) = plainCid ex_commit0"
  by (simp add: ex_init_simps ex_commit0_def)

lemma ex_branched_store:
  "sourceOfTruth ex_branched = sourceOfTruth ex_init" "workInProgress ex_branched = Map.empty"
  "workingRootCid ex_branched = plainCid (GrammarRoot [])"
  by (simp_all add: ex_branched_def createBranch_def Let_def ex_init_simps)

lemma ex_ahead_simps:
  "currentBranch ex_ahead = 0"
  "objects ex_ahead 0 = \<lparr> uuid = ''u0'', name = ''default'', commit = plainCid ex_commit1 \<rparr>"
  "objects ex_ahead (Suc 0) = \<lparr> uuid = ''u1'', name = ''feature'', commit = plainCid ex_commit0 \<rparr>"
  "workInProgress ex_ahead = Map.empty"
  "sourceOfTruth ex_ahead = [plainCid (GrammarRoot []) \<mapsto> GrammarRoot [],
      plainCid ex_commit0 \<mapsto> ex_commit0, plainCid ex_commit1 \<mapsto> ex_commit1]"
  by (simp_all add: ex_ahead_def commit_op_fields ex_branched_simps ex_branched_store
      ex_init_simps ex_init_sot ex_commit1_def ex_commit0_def)

lemma ex_ahead_merge: "merge plainCid ''t2'' 0 (Suc 0) ex_ahead = Some (Inr ex_merged)"
  by (simp add: merge_def Let_def ex_ahead_simps resolve_unfold plainCid_eq_iff
      ex_commit0_def ex_commit1_def mergeGrammarRoots_def dirsMap_def sourceOnly_def
      KVStore_put_def KVStore_clear_def ex_merged_def ex_mergeCommit_def)

section \<open>Branches\<close>

lemma findIndex_ge: "findIndex P xs \<ge> -1"
  by (induction xs) (auto simp: Let_def)

lemma findIndex_none: "findIndex P xs = -1 \<longleftrightarrow> (\<forall>x\<in>set xs. \<not> P x)"
proof (induction xs)
  case Nil
  then show ?case by simp
next
  case (Cons x xs)
  with findIndex_ge [of P xs] show ?case by (auto simp: Let_def)
qed

lemma findIndex_first:
  assumes "findIndex P xs \<noteq> -1"
  shows "nat (findIndex P xs) < length xs \<and> P (xs ! nat (findIndex P xs)) \<and>
         (\<forall>j < nat (findIndex P xs). \<not> P (xs ! j))"
  using assms
proof (induction xs)
  case Nil
  then show ?case by simp
next
  case (Cons x xs)
  show ?case
  proof (cases "P x")
    case True
    then show ?thesis by simp
  next
    case False
    with Cons.prems have ne: "findIndex P xs \<noteq> -1" by (auto simp: Let_def)
    with findIndex_ge [of P xs] have ge: "findIndex P xs \<ge> 0" by linarith
    from False ne have eq: "findIndex P (x # xs) = findIndex P xs + 1" by (simp add: Let_def)
    from ge have n: "nat (findIndex P xs + 1) = Suc (nat (findIndex P xs))" by simp
    from Cons.IH [OF ne] False show ?thesis
      unfolding eq n by (auto simp: nth_Cons split: nat.splits)
  qed
qed

lemma splice1_remove1:
  assumes "distinct (map f xs)" "b \<in> set xs" 
  shows "splice1 (findIndex (\<lambda>x. f x = f b) xs) xs = remove1 b xs"
  using assms
proof (induction xs)
  case Nil
  then show ?case by simp
next
  case (Cons x xs)
  show ?case
  proof (cases "x = b")
    case True
    then show ?thesis by (simp add: splice1_def)
  next
    case False
    with Cons.prems have b: "b \<in> set xs" and fx: "f x \<noteq> f b" by auto
    then have ne: "findIndex (\<lambda>x. f x = f b) xs \<noteq> -1" by (auto simp: findIndex_none)
    with findIndex_ge [of "\<lambda>x. f x = f b" xs] have ge: "findIndex (\<lambda>x. f x = f b) xs \<ge> 0" by linarith
    from Cons.IH b Cons.prems have IH: "splice1 (findIndex (\<lambda>x. f x = f b) xs) xs = remove1 b xs" by simp
    from ge have n: "nat (findIndex (\<lambda>x. f x = f b) xs + 1) = Suc (nat (findIndex (\<lambda>x. f x = f b) xs))" by simp
    from fx ne False IH show ?thesis
      by (simp add: Let_def splice1_def n)
  qed
qed

text \<open>
  C10. \<open>archiveBranch\<close> decides its guard by the name of the branch it is given: a
  branch named \<open>default\<close> is never archived, whether or not it is the default branch of
  the engine, and the state is left as it was. For a live branch with another name, the
  first live branch with the same uuid is removed from the live list and the branch is
  appended to the archived list; when the uuids of the live branches are pairwise distinct,
  the branch removed is that branch and no other.
\<close>

theorem archiveBranch_guard_by_name:
  "(name (objects st b) = ''default'' \<longrightarrow> archiveBranch b st = st) \<and>
   (b \<in> set (branches st) \<and> name (objects st b) \<noteq> ''default'' \<longrightarrow>
      (\<exists>i < length (branches st).
          uuid (objects st (branches st ! i)) = uuid (objects st b) \<and>
          (\<forall>j < i. uuid (objects st (branches st ! j)) \<noteq> uuid (objects st b)) \<and>
          branches (archiveBranch b st) = take i (branches st) @ drop (Suc i) (branches st)) \<and>
      archivedBranches (archiveBranch b st) = archivedBranches st @ [b] \<and>
      (distinct (map (\<lambda>r. uuid (objects st r)) (branches st)) \<longrightarrow>
         branches (archiveBranch b st) = remove1 b (branches st)))"
proof (intro conjI impI)
  assume "name (objects st b) = ''default''"
  then show "archiveBranch b st = st" by (simp add: archiveBranch_def Let_def)
next
  assume a: "b \<in> set (branches st) \<and> name (objects st b) \<noteq> ''default''"
  let ?P = "\<lambda>x. uuid (objects st x) = uuid (objects st b)"
  from a have ne: "findIndex ?P (branches st) \<noteq> -1" by (auto simp: findIndex_none)
  from a ne have br: "branches (archiveBranch b st) = splice1 (findIndex ?P (branches st)) (branches st)"
    by (simp add: archiveBranch_def Let_def)
  from findIndex_first [OF ne] br
  show "\<exists>i < length (branches st).
          uuid (objects st (branches st ! i)) = uuid (objects st b) \<and>
          (\<forall>j < i. uuid (objects st (branches st ! j)) \<noteq> uuid (objects st b)) \<and>
          branches (archiveBranch b st) = take i (branches st) @ drop (Suc i) (branches st)"
    by (intro exI [of _ "nat (findIndex ?P (branches st))"]) (simp add: splice1_def)
  from a ne show "archivedBranches (archiveBranch b st) = archivedBranches st @ [b]"
    by (simp add: archiveBranch_def Let_def)
  assume "distinct (map (\<lambda>r. uuid (objects st r)) (branches st))"
  with a br splice1_remove1 [of "\<lambda>r. uuid (objects st r)" "branches st" b]
  show "branches (archiveBranch b st) = remove1 b (branches st)" by simp
qed


theorem archiveBranch_guard_by_name_witness:
  "name (objects ex_twice (Suc 0)) = ''default'' \<and> defaultBranch ex_twice \<noteq> Suc 0 \<and>
   archiveBranch (Suc 0) ex_twice = ex_twice \<and>
   Suc 0 \<in> set (branches ex_branched) \<and> name (objects ex_branched (Suc 0)) \<noteq> ''default'' \<and>
   distinct (map (\<lambda>r. uuid (objects ex_branched r)) (branches ex_branched)) \<and>
   archivedBranches (archiveBranch (Suc 0) ex_branched) = [Suc 0] \<and>
   branches (archiveBranch (Suc 0) ex_branched) = [0]"
  using archiveBranch_guard_by_name [of ex_twice "Suc 0"]
    archiveBranch_guard_by_name [of ex_branched "Suc 0"]
  by (simp add: ex_twice_simps ex_branched_simps ex_init_simps)

text \<open>
  C4. The claim that the names of the live branches stay pairwise distinct, and that
  \<open>createBranch\<close> with the name of a live branch is rejected, fails: on a fresh engine
  \<^verbatim>\<open>createBranch("default")\<close> gives two live branches named \<open>default\<close>.
\<close>

theorem createBranch_duplicate_name_counterexample:
  "liveNames ex_init = [''default''] \<and>
   liveNames ex_twice = [''default'', ''default''] \<and>
   \<not> distinct (liveNames ex_twice)"
  by (simp add: liveNames_def ex_twice_simps ex_init_simps)

text \<open>
  C4, as amended. \<open>createBranch\<close> never rejects a name: it appends the reference of one
  new Branch object with the given name to the live list, whether or not a live branch has
  that name already; when the new reference is not in the live list before the call, the
  live names after the call are the live names before it followed by the given name.
\<close>

theorem createBranch_always_appends:
  "branches (fst (createBranch u nm fromCommit carry st)) =
     branches st @ [snd (createBranch u nm fromCommit carry st)] \<and>
   name (objects (fst (createBranch u nm fromCommit carry st))
          (snd (createBranch u nm fromCommit carry st))) = nm \<and>
   (nextRef st \<notin> set (branches st) \<longrightarrow>
      liveNames (fst (createBranch u nm fromCommit carry st)) = liveNames st @ [nm])"
  by (auto simp: createBranch_def Let_def liveNames_def)

theorem createBranch_always_appends_witness:
  "nextRef ex_init \<notin> set (branches ex_init) \<and>
   liveNames ex_init = [''default''] \<and>
   liveNames (fst (createBranch ''u1'' ''default'' None False ex_init)) =
     [''default'', ''default'']"
proof -
  have h: "nextRef ex_init \<notin> set (branches ex_init)" and l: "liveNames ex_init = [''default'']"
    by (simp_all add: ex_init_simps liveNames_def)
  from createBranch_always_appends [of "''u1''" "''default''" None False ex_init] h
  have "liveNames (fst (createBranch ''u1'' ''default'' None False ex_init))
          = liveNames ex_init @ [''default'']" by blast
  with h l show ?thesis by simp
qed

section \<open>Commits\<close>

text \<open>
  C3. \<open>commit\<close> returns the CID of the new commit, whose only parent is the head of the
  current branch before the call and whose content is the working root. Afterwards the
  source-of-truth tier is the old one overridden by every entry of the working tier, with
  the new commit stored under its CID; the working tier is empty; the current branch is
  the same branch and points at the new commit; and \<open>isDirty\<close> returns false. In every
  state reached by \<open>put\<close> followed by \<open>setWorkingRoot\<close>, or by \<open>setRoot\<close>, in which
  the head of the current branch resolves to a commit whose content differs from the new
  working root, \<open>isDirty\<close> returns true; this is so in particular when the head resolved
  to such a commit before the \<open>put\<close> and the node put is stored under another CID than
  the head.
\<close>

theorem commit_op_correct:
  fixes st :: VersionControl and author now message :: string and cid :: "node \<Rightarrow> CID"
  defines "newCommit \<equiv>
    Commit [commit (objects st (currentBranch st))] (workingRootCid st) author now message"
  defines "st' \<equiv> fst (commit_op cid now message author st)"
  shows
   "snd (commit_op cid now message author st) = cid newCommit \<and>
    sourceOfTruth st' = (sourceOfTruth st ++ workInProgress st)(cid newCommit \<mapsto> newCommit) \<and>
    workInProgress st' = Map.empty \<and>
    resolve st' (cid newCommit) = Some newCommit \<and>
    currentBranch st' = currentBranch st \<and>
    commit (objects st' (currentBranch st')) = cid newCommit \<and>
    workingRootCid st' = workingRootCid st \<and>
    isDirty st' = Inr False \<and>
    (resolve (setWorkingRoot r (fst (put cid n s))) (commit (objects s (currentBranch s)))
        = Some (Commit ps c a t m) \<and> r \<noteq> c
      \<longrightarrow> isDirty (setWorkingRoot r (fst (put cid n s))) = Inr True) \<and>
    (resolve (setRoot cid g s) (commit (objects s (currentBranch s)))
        = Some (Commit ps c a t m) \<and> cid g \<noteq> c
      \<longrightarrow> isDirty (setRoot cid g s) = Inr True) \<and>
    (resolve s (commit (objects s (currentBranch s))) = Some (Commit ps c a t m) \<and>
     cid n \<noteq> commit (objects s (currentBranch s)) \<and> r \<noteq> c
      \<longrightarrow> isDirty (setWorkingRoot r (fst (put cid n s))) = Inr True)"
proof -
  have res: "resolve st' (cid newCommit) = Some newCommit"
    unfolding st'_def newCommit_def by (simp add: resolve_unfold commit_op_fields)
  have head: "commit (objects st' (currentBranch st')) = cid newCommit"
    unfolding st'_def newCommit_def by (simp add: commit_op_fields)
  have clean: "isDirty st' = Inr False"
    using res head unfolding st'_def newCommit_def
    by (simp add: isDirty_def commit_op_fields)
  have d1: "isDirty (setWorkingRoot r (fst (put cid n s))) = Inr True"
    if "resolve (setWorkingRoot r (fst (put cid n s))) (commit (objects s (currentBranch s)))
        = Some (Commit ps c a t m)" "r \<noteq> c"
    using that isDirty_commit_head [of "setWorkingRoot r (fst (put cid n s))" ps c a t m]
    by (simp add: setWorkingRoot_fields put_fields)
  have d2: "isDirty (setRoot cid g s) = Inr True"
    if "resolve (setRoot cid g s) (commit (objects s (currentBranch s)))
        = Some (Commit ps c a t m)" "cid g \<noteq> c"
    using that isDirty_commit_head [of "setRoot cid g s" ps c a t m]
    by (auto simp add: setRoot_fields)
  have d3: "isDirty (setWorkingRoot r (fst (put cid n s))) = Inr True"
    if "resolve s (commit (objects s (currentBranch s))) = Some (Commit ps c a t m)"
       "cid n \<noteq> commit (objects s (currentBranch s))" "r \<noteq> c"
  proof -
    from that(1,2) have "resolve (setWorkingRoot r (fst (put cid n s)))
        (commit (objects s (currentBranch s))) = Some (Commit ps c a t m)"
      by (simp add: resolve_unfold setWorkingRoot_fields put_fields split: option.splits)
    then show ?thesis using that(3) by (rule d1)
  qed
  show ?thesis
    using res head clean d1 d2 d3 unfolding st'_def newCommit_def
    by (simp add: commit_op_fields)
qed

theorem commit_op_correct_witness:
  "isDirty (fst (commit_op plainCid ''t2'' ''add todo'' ''alice'' ex_noted)) = Inr False \<and>
   resolve (setWorkingRoot (plainCid ex_note) (fst (put plainCid ex_note ex_init)))
     (commit (objects ex_init (currentBranch ex_init))) = Some ex_commit0 \<and>
   plainCid ex_note \<noteq> plainCid (GrammarRoot []) \<and>
   isDirty (setWorkingRoot (plainCid ex_note) (fst (put plainCid ex_note ex_init))) = Inr True \<and>
   resolve (setRoot plainCid (GrammarRoot [plainCid ex_note]) ex_init)
     (commit (objects ex_init (currentBranch ex_init))) = Some ex_commit0 \<and>
   plainCid (GrammarRoot [plainCid ex_note]) \<noteq> plainCid (GrammarRoot []) \<and>
   isDirty (setRoot plainCid (GrammarRoot [plainCid ex_note]) ex_init) = Inr True \<and>
   resolve ex_init (commit (objects ex_init (currentBranch ex_init))) = Some ex_commit0 \<and>
   plainCid ex_note \<noteq> commit (objects ex_init (currentBranch ex_init))"
proof -
  have r0: "resolve ex_init (commit (objects ex_init (currentBranch ex_init))) = Some ex_commit0"
    by (simp add: resolve_unfold ex_init_simps ex_init_sot ex_init_head [simplified ex_init_simps]
        ex_commit0_def [symmetric])
  have ne1: "plainCid ex_note \<noteq> plainCid (GrammarRoot [])"
    by (simp add: plainCid_eq_iff ex_note_def)
  have ne2: "plainCid (GrammarRoot [plainCid ex_note]) \<noteq> plainCid (GrammarRoot [])"
    by (simp add: plainCid_eq_iff)
  have ne3: "plainCid ex_note \<noteq> commit (objects ex_init (currentBranch ex_init))"
    by (simp add: ex_init_simps plainCid_eq_iff ex_note_def)
  have r1: "resolve (setWorkingRoot (plainCid ex_note) (fst (put plainCid ex_note ex_init)))
     (commit (objects ex_init (currentBranch ex_init))) = Some ex_commit0"
    using r0 ne3 by (simp add: resolve_unfold setWorkingRoot_fields put_fields split: option.splits)
  have ne4: "plainCid (GrammarRoot [plainCid ex_note]) \<noteq> commit (objects ex_init (currentBranch ex_init))"
    by (simp add: ex_init_simps plainCid_eq_iff)
  have r2: "resolve (setRoot plainCid (GrammarRoot [plainCid ex_note]) ex_init)
     (commit (objects ex_init (currentBranch ex_init))) = Some ex_commit0"
    using r0 ne4 by (simp add: resolve_unfold setRoot_fields split: option.splits)
  note th = commit_op_correct [of plainCid "''t2''" "''add todo''" "''alice''" ex_noted
      "plainCid ex_note" ex_note ex_init "[]" "plainCid (GrammarRoot [])" "''system''" "''t0''"
      "''initial commit''" "GrammarRoot [plainCid ex_note]"]
  from th r0 r1 r2 ne1 ne2 ne3 show ?thesis
    by (simp add: ex_commit0_def)
qed

subsection \<open>What a merge adds to the store\<close>

lemma addsTrees_refl: "addsTrees st st"
  by (simp add: addsTrees_def)

lemma addsTrees_trans: "addsTrees a b \<Longrightarrow> addsTrees b c \<Longrightarrow> addsTrees a c"
  unfolding addsTrees_def
  by (metis (no_types, lifting) VersionControl.surjective VersionControl.update_convs(1))

lemma addsTrees_commit:
  assumes "addsTrees st st'" "sourceOfTruth st' k = Some (Commit ps c a t m)"
  shows "sourceOfTruth st k = Some (Commit ps c a t m)"
proof -
  from assms(1) have "\<forall>k n. sourceOfTruth st' k = Some n \<longrightarrow>
        sourceOfTruth st k = Some n \<or> node_type n = ''folder'' \<or> node_type n = ''grammar_root''"
    by (simp add: addsTrees_def)
  from this [rule_format, OF assms(2)] show ?thesis by simp
qed

lemma mergeChildren_preserves:
  assumes rec: "\<And>st a b st' r. rec st a b = Some (Inr (st', r)) \<Longrightarrow> Q st st'"
    and refl: "\<And>st. Q st st" and trans: "\<And>a b c. Q a b \<Longrightarrow> Q b c \<Longrightarrow> Q a c"
  shows "mergeChildren rec src cur st acc = Some (Inr (st', out)) \<Longrightarrow> Q st st'"
proof (induction cur arbitrary: st acc)
  case Nil
  then show ?case by (simp add: refl)
next
  case (Cons e rest)
  obtain nm cc where e: "e = (nm, cc)" by (cases e)
  from Cons.prems e show ?case
    by (auto split: option.splits if_splits sum.splits dest!: Cons.IH dest: rec trans)
qed

lemma mergeDirs_preserves:
  assumes rec: "\<And>st a b st' r. rec st a b = Some (Inr (st', r)) \<Longrightarrow> Q st st'"
    and refl: "\<And>st. Q st st" and trans: "\<And>a b c. Q a b \<Longrightarrow> Q b c \<Longrightarrow> Q a c"
  shows "mergeDirs rec src cur st acc = Some (Inr (st', out)) \<Longrightarrow> Q st st'"
proof (induction cur arbitrary: st acc)
  case Nil
  then show ?case by (simp add: refl)
next
  case (Cons e rest)
  obtain nm cc where e: "e = (nm, cc)" by (cases e)
  from Cons.prems e show ?case
    by (auto split: option.splits if_splits sum.splits dest!: Cons.IH dest: rec trans)
qed

lemma addsTrees_put:
  "node_type n = ''folder'' \<or> node_type n = ''grammar_root'' \<Longrightarrow>
   addsTrees st (st\<lparr> sourceOfTruth := (sourceOfTruth st)(k \<mapsto> n) \<rparr>)"
  by (auto simp: addsTrees_def)

lemma mergeDirectories_addsTrees:
  "mergeDirectories cid fuel st a b = Some (Inr (st', r)) \<Longrightarrow> addsTrees st st'"
proof (induction fuel arbitrary: st a b st' r)
  case 0
  then show ?case by simp
next
  case (Suc fuel)
  show ?case
  proof (cases "resolve st a = None \<or> resolve st b = None")
    case True
    with Suc.prems show ?thesis by (auto simp: addsTrees_refl split: option.splits)
  next
    case False
    then obtain current source where cs: "resolve st a = Some current" "resolve st b = Some source"
      by auto
    from Suc.prems cs obtain st1 merged1 n where
      run: "mergeChildren (mergeDirectories cid fuel) (childrenMap st (node_children source))
                (childrenMap st (node_children current)) st [] = Some (Inr (st1, merged1))"
      and st': "st' = st1\<lparr> sourceOfTruth := (sourceOfTruth st1)
            (cid (Folder n (merged1 @ sourceOnly (childrenMap st (node_children current))
                                 (childrenMap st (node_children source)))) \<mapsto>
             Folder n (merged1 @ sourceOnly (childrenMap st (node_children current))
                                 (childrenMap st (node_children source)))) \<rparr>"
      by (auto simp: Let_def KVStore_put_def split: option.splits sum.splits prod.splits)
    have "addsTrees st st1"
    proof (rule mergeChildren_preserves [where Q = addsTrees, OF _ _ _ run])
      show "addsTrees s s'" if "mergeDirectories cid fuel s x y = Some (Inr (s', z))" for s x y s' z
        using that by (rule Suc.IH)
    qed (auto intro: addsTrees_refl addsTrees_trans)
    moreover have "addsTrees st1 st'" unfolding st' by (rule addsTrees_put) simp
    ultimately show ?thesis by (rule addsTrees_trans)
  qed
qed

lemma mergeGrammarRoots_addsTrees:
  assumes "mergeGrammarRoots cid fuel st a b = Some (Inr (st', r))"
  shows "addsTrees st st'"
proof (cases "resolve st a = None \<or> resolve st b = None")
  case True
  with assms show ?thesis
    by (auto simp: mergeGrammarRoots_def KVStore_put_def Let_def addsTrees_refl
        intro!: addsTrees_put split: option.splits)
next
  case False
  then obtain current source where cs: "resolve st a = Some current" "resolve st b = Some source"
    by auto
  from assms cs obtain st1 merged1 cur src where
    run: "mergeDirs (mergeDirectories cid fuel) src cur st [] = Some (Inr (st1, merged1))"
    and st': "st' = st1\<lparr> sourceOfTruth := (sourceOfTruth st1)
            (cid (GrammarRoot (merged1 @ sourceOnly cur src)) \<mapsto>
             GrammarRoot (merged1 @ sourceOnly cur src)) \<rparr>"
    by (auto simp: mergeGrammarRoots_def Let_def KVStore_put_def
        split: option.splits sum.splits prod.splits)
  have "addsTrees st st1"
  proof (rule mergeDirs_preserves [where Q = addsTrees, OF _ _ _ run])
    show "addsTrees s s'" if "mergeDirectories cid fuel s x y = Some (Inr (s', z))" for s x y s' z
      using that by (rule mergeDirectories_addsTrees)
  qed (auto intro: addsTrees_refl addsTrees_trans)
  moreover have "addsTrees st1 st'" unfolding st' by (rule addsTrees_put) simp
  ultimately show ?thesis by (rule addsTrees_trans)
qed

lemma ex_handed_simps:
  "workInProgress ex_handed =
     [plainCid ex_foreign3 \<mapsto> ex_foreign3, plainCid ex_foreign0 \<mapsto> ex_foreign0]"
  "sourceOfTruth ex_handed = sourceOfTruth ex_init"
  "currentBranch ex_handed = 0"
  "objects ex_handed = objects ex_init"
  "workingRootCid ex_handed = plainCid (GrammarRoot [])"
  by (simp_all add: ex_handed_def put_fields ex_init_simps)

text \<open>
  C5. The claim that every commit in the store has at most two parents, and none only
  when it is the initial commit, fails: \<open>put\<close> takes any node. On a fresh engine, after
  \<open>put\<close> of a commit with three parents, \<open>put\<close> of a commit with no parent and
  \<open>commit\<close>, the source of truth holds the initial commit, the commit with three parents
  and a second commit with no parent.
\<close>

theorem commit_parents_counterexample:
  "sourceOfTruth ex_foreign (plainCid ex_commit0) = Some ex_commit0 \<and>
   sourceOfTruth ex_foreign (plainCid ex_foreign3) =
     Some (Commit [plainCid ex_commit0, plainCid ex_commit0, plainCid ex_commit0]
             (plainCid (GrammarRoot [])) ''alice'' ''t1'' ''octopus'') \<and>
   sourceOfTruth ex_foreign (plainCid ex_foreign0) =
     Some (Commit [] (plainCid (GrammarRoot [])) ''alice'' ''t1'' ''orphan'') \<and>
   plainCid ex_foreign0 \<noteq> plainCid ex_commit0 \<and>
   (\<exists>k ps c a t m. sourceOfTruth ex_foreign k = Some (Commit ps c a t m) \<and> length ps = 3)"
proof -
  have s: "sourceOfTruth ex_foreign (plainCid ex_commit0) = Some ex_commit0"
    "sourceOfTruth ex_foreign (plainCid ex_foreign3) =
     Some (Commit [plainCid ex_commit0, plainCid ex_commit0, plainCid ex_commit0]
             (plainCid (GrammarRoot [])) ''alice'' ''t1'' ''octopus'')"
    "sourceOfTruth ex_foreign (plainCid ex_foreign0) =
     Some (Commit [] (plainCid (GrammarRoot [])) ''alice'' ''t1'' ''orphan'')"
    "plainCid ex_foreign0 \<noteq> plainCid ex_commit0"
    by (simp_all add: ex_foreign_def commit_op_fields ex_handed_simps ex_init_sot ex_init_head
        plainCid_eq_iff map_add_def ex_foreign3_def ex_foreign0_def ex_commit0_def)
  have "length [plainCid ex_commit0, plainCid ex_commit0, plainCid ex_commit0] = 3" by simp
  with s(2) have "\<exists>k ps c a t m. sourceOfTruth ex_foreign k = Some (Commit ps c a t m) \<and>
      length ps = 3"
    by blast
  with s show ?thesis by blast
qed

text \<open>
  C5, as amended. The commits the engine builds have zero, one or two parents. The commit
  the constructor stores has none, and it is the only commit of a fresh engine. The commit
  \<open>commit\<close> stores has one parent, the head of the current branch at the time of the
  call; every other commit in the source of truth after the call was there before or was
  put in the working tier by the caller. The commit a \<open>merge\<close> that is not a no-op stores
  has two parents, first the head of the current branch before the merge and second the
  head of the source branch; every other commit in the source of truth after a merge was
  there before (the nodes the merge synthesises are folders and grammar roots). A commit
  of the caller's is stored whatever its parents: \<open>put\<close> keeps any node as given, under
  the CID it returns, in the working tier and leaves the source of truth alone, and
  \<open>commit\<close> and \<open>createBranch\<close> with carried state move every entry of the working tier
  to the source of truth (\<open>commit\<close> then stores its new commit under its CID).
\<close>

theorem commit_parents:
  "sourceOfTruth (init cid u now)
      (commit (objects (init cid u now) (currentBranch (init cid u now))))
     = Some (Commit [] (cid (GrammarRoot [])) ''system'' now ''initial commit'') \<and>
   (\<forall>k ps c a t m. sourceOfTruth (init cid u now) k = Some (Commit ps c a t m) \<longrightarrow> ps = []) \<and>
   sourceOfTruth (fst (commit_op cid now message author st))
      (snd (commit_op cid now message author st))
     = Some (Commit [commit (objects st (currentBranch st))] (workingRootCid st)
               author now message) \<and>
   (\<forall>k ps c a t m.
      sourceOfTruth (fst (commit_op cid now message author st)) k = Some (Commit ps c a t m) \<longrightarrow>
        sourceOfTruth st k = Some (Commit ps c a t m) \<or>
        workInProgress st k = Some (Commit ps c a t m) \<or>
        ps = [commit (objects st (currentBranch st))]) \<and>
   (merge cid now fuel sourceBranch st = Some (Inr st') \<and>
    uuid (objects st sourceBranch) \<noteq> uuid (objects st (currentBranch st)) \<and>
    commit (objects st (currentBranch st)) \<noteq> commit (objects st sourceBranch) \<longrightarrow>
      (\<exists>mergedContent msg.
         sourceOfTruth st' (commit (objects st' (currentBranch st')))
           = Some (Commit [commit (objects st (currentBranch st)),
                           commit (objects st sourceBranch)]
                     mergedContent ''merge'' now msg))) \<and>
   (merge cid now fuel sourceBranch st = Some (Inr st') \<longrightarrow>
      (\<forall>k ps c a t m. sourceOfTruth st' k = Some (Commit ps c a t m) \<longrightarrow>
         sourceOfTruth st k = Some (Commit ps c a t m) \<or>
         ps = [commit (objects st (currentBranch st)), commit (objects st sourceBranch)])) \<and>
   workInProgress (fst (put cid n st)) (snd (put cid n st)) = Some n \<and>
   sourceOfTruth (fst (put cid n st)) = sourceOfTruth st \<and>
   (\<forall>k x. workInProgress st k = Some x \<and> k \<noteq> snd (commit_op cid now message author st) \<longrightarrow>
      sourceOfTruth (fst (commit_op cid now message author st)) k = Some x) \<and>
   (\<forall>k x. workInProgress st k = Some x \<longrightarrow>
      sourceOfTruth (fst (createBranch u nm fromCommit True st)) k = Some x)"
proof (intro conjI impI allI)
  show "sourceOfTruth (init cid u now)
      (commit (objects (init cid u now) (currentBranch (init cid u now))))
     = Some (Commit [] (cid (GrammarRoot [])) ''system'' now ''initial commit'')"
    by (simp add: init_def KVStore_put_def Let_def)
  show "sourceOfTruth (fst (commit_op cid now message author st))
      (snd (commit_op cid now message author st))
     = Some (Commit [commit (objects st (currentBranch st))] (workingRootCid st)
               author now message)"
    by (simp add: commit_op_fields)
  show "workInProgress (fst (put cid n st)) (snd (put cid n st)) = Some n"
    by (simp add: put_fields)
  show "sourceOfTruth (fst (put cid n st)) = sourceOfTruth st"
    by (simp add: put_fields)
next
  fix k x
  assume "workInProgress st k = Some x \<and> k \<noteq> snd (commit_op cid now message author st)"
  then show "sourceOfTruth (fst (commit_op cid now message author st)) k = Some x"
    by (simp add: commit_op_fields map_add_def)
next
  fix k x
  assume "workInProgress st k = Some x"
  then show "sourceOfTruth (fst (createBranch u nm fromCommit True st)) k = Some x"
    by (simp add: createBranch_def Let_def transferTo_def map_add_def)
next
  fix k ps c a t m
  assume "sourceOfTruth (init cid u now) k = Some (Commit ps c a t m)"
  then show "ps = []"
    by (auto simp: init_def KVStore_put_def Let_def split: if_splits)
next
  fix k ps c a t m
  assume "sourceOfTruth (fst (commit_op cid now message author st)) k = Some (Commit ps c a t m)"
  then show "sourceOfTruth st k = Some (Commit ps c a t m) \<or>
        workInProgress st k = Some (Commit ps c a t m) \<or>
        ps = [commit (objects st (currentBranch st))]"
    by (auto simp: commit_op_fields map_add_def split: if_splits option.splits)
next
  assume a: "merge cid now fuel sourceBranch st = Some (Inr st') \<and>
    uuid (objects st sourceBranch) \<noteq> uuid (objects st (currentBranch st)) \<and>
    commit (objects st (currentBranch st)) \<noteq> commit (objects st sourceBranch)"
  show "\<exists>mergedContent msg.
         sourceOfTruth st' (commit (objects st' (currentBranch st')))
           = Some (Commit [commit (objects st (currentBranch st)),
                           commit (objects st sourceBranch)]
                     mergedContent ''merge'' now msg)"
  proof -
    let ?cur = "objects st (currentBranch st)" and ?src = "objects st sourceBranch"
    from a obtain currentCommit sourceCommit currentContent sourceContent st1 mergedContent
      where m: "mergeGrammarRoots cid fuel st currentContent sourceContent
                  = Some (Inr (st1, mergedContent))"
        and st': "st' = st1\<lparr>
              sourceOfTruth := (sourceOfTruth st1)
                (cid (Commit [commit ?cur, commit ?src] mergedContent ''merge'' now
                   (''Merge '' @ [CHR 0x27] @ name ?src @ [CHR 0x27] @
                    '' into '' @ [CHR 0x27] @ name ?cur @ [CHR 0x27])) \<mapsto>
                 Commit [commit ?cur, commit ?src] mergedContent ''merge'' now
                   (''Merge '' @ [CHR 0x27] @ name ?src @ [CHR 0x27] @
                    '' into '' @ [CHR 0x27] @ name ?cur @ [CHR 0x27])),
              objects := (objects st1)(currentBranch st1 :=
                (objects st1 (currentBranch st1))\<lparr> commit :=
                   cid (Commit [commit ?cur, commit ?src] mergedContent ''merge'' now
                   (''Merge '' @ [CHR 0x27] @ name ?src @ [CHR 0x27] @
                    '' into '' @ [CHR 0x27] @ name ?cur @ [CHR 0x27])) \<rparr>),
              workingRootCid := mergedContent,
              workInProgress := KVStore_clear \<rparr>"
      by (auto simp: merge_def Let_def KVStore_put_def split: option.splits sum.splits prod.splits)
    show ?thesis unfolding st' by simp
  qed
next
  fix k ps c a t m
  assume run: "merge cid now fuel sourceBranch st = Some (Inr st')"
    and k: "sourceOfTruth st' k = Some (Commit ps c a t m)"
  let ?cur = "objects st (currentBranch st)" and ?src = "objects st sourceBranch"
  show "sourceOfTruth st k = Some (Commit ps c a t m) \<or> ps = [commit ?cur, commit ?src]"
  proof (cases "st' = st")
    case True
    with k show ?thesis by simp
  next
    case False
    with run obtain currentContent sourceContent st1 mergedContent msg
      where m: "mergeGrammarRoots cid fuel st currentContent sourceContent
                  = Some (Inr (st1, mergedContent))"
        and sot: "sourceOfTruth st' = (sourceOfTruth st1)
                (cid (Commit [commit ?cur, commit ?src] mergedContent ''merge'' now msg) \<mapsto>
                 Commit [commit ?cur, commit ?src] mergedContent ''merge'' now msg)"
      by (auto simp: merge_def Let_def KVStore_put_def
          split: option.splits sum.splits prod.splits if_splits)
    from m have "addsTrees st st1" by (rule mergeGrammarRoots_addsTrees)
    with k sot show ?thesis
      by (auto split: if_splits dest: addsTrees_commit)
  qed
qed


theorem commit_parents_witness:
  "sourceOfTruth ex_init (plainCid ex_commit0) = Some ex_commit0 \<and>
   sourceOfTruth ex_ahead (plainCid ex_commit1) = Some ex_commit1 \<and>
   sourceOfTruth ex_branched (plainCid ex_commit1) = None \<and>
   workInProgress ex_branched (plainCid ex_commit1) = None \<and>
   merge plainCid ''t2'' 0 (Suc 0) ex_ahead = Some (Inr ex_merged) \<and>
   uuid (objects ex_ahead (Suc 0)) \<noteq> uuid (objects ex_ahead (currentBranch ex_ahead)) \<and>
   commit (objects ex_ahead (currentBranch ex_ahead)) \<noteq> commit (objects ex_ahead (Suc 0)) \<and>
   (\<exists>mergedContent msg.
      sourceOfTruth ex_merged (commit (objects ex_merged (currentBranch ex_merged)))
        = Some (Commit [plainCid ex_commit1, plainCid ex_commit0] mergedContent
                  ''merge'' ''t2'' msg)) \<and>
   sourceOfTruth ex_merged (plainCid ex_mergeCommit) = Some ex_mergeCommit \<and>
   sourceOfTruth ex_ahead (plainCid ex_mergeCommit) = None \<and>
   workInProgress ex_handed (plainCid ex_foreign3) = Some ex_foreign3 \<and>
   plainCid ex_foreign3 \<noteq> snd (commit_op plainCid ''t2'' ''work'' ''alice'' ex_handed) \<and>
   sourceOfTruth ex_foreign (plainCid ex_foreign3) = Some ex_foreign3 \<and>
   sourceOfTruth (fst (createBranch ''u1'' ''feature'' None True ex_handed))
     (plainCid ex_foreign3) = Some ex_foreign3"
proof -
  have h: "uuid (objects ex_ahead (Suc 0)) \<noteq> uuid (objects ex_ahead (currentBranch ex_ahead))"
    "commit (objects ex_ahead (currentBranch ex_ahead)) \<noteq> commit (objects ex_ahead (Suc 0))"
    by (simp_all add: ex_ahead_simps plainCid_eq_iff ex_commit0_def ex_commit1_def)
  have s: "sourceOfTruth ex_init (plainCid ex_commit0) = Some ex_commit0"
    "sourceOfTruth ex_ahead (plainCid ex_commit1) = Some ex_commit1"
    "sourceOfTruth ex_branched (plainCid ex_commit1) = None"
    "workInProgress ex_branched (plainCid ex_commit1) = None"
    "sourceOfTruth ex_merged (plainCid ex_mergeCommit) = Some ex_mergeCommit"
    "sourceOfTruth ex_ahead (plainCid ex_mergeCommit) = None"
    by (simp_all add: ex_init_sot ex_ahead_simps ex_branched_store ex_merged_def plainCid_eq_iff
        ex_commit0_def ex_commit1_def ex_mergeCommit_def)
  have w: "workInProgress ex_handed (plainCid ex_foreign3) = Some ex_foreign3"
    "plainCid ex_foreign3 \<noteq> snd (commit_op plainCid ''t2'' ''work'' ''alice'' ex_handed)"
    by (simp_all add: ex_handed_simps commit_op_fields plainCid_eq_iff ex_foreign3_def
        ex_foreign0_def)
  note moved = commit_parents [where cid = plainCid and now = "''t2''" and message = "''work''"
      and author = "''alice''" and st = ex_handed and u = "''u1''" and nm = "''feature''"
      and fromCommit = None]
  from moved w have f: "sourceOfTruth ex_foreign (plainCid ex_foreign3) = Some ex_foreign3"
    unfolding ex_foreign_def by blast
  from moved w have g: "sourceOfTruth (fst (createBranch ''u1'' ''feature'' None True ex_handed))
     (plainCid ex_foreign3) = Some ex_foreign3"
    by blast
  from commit_parents [where cid = plainCid and now = "''t2''" and fuel = 0
      and sourceBranch = "Suc 0" and st = ex_ahead and st' = ex_merged]
    ex_ahead_merge h s
  have "\<exists>mergedContent msg.
      sourceOfTruth ex_merged (commit (objects ex_merged (currentBranch ex_merged)))
        = Some (Commit [plainCid ex_commit1, plainCid ex_commit0] mergedContent
                  ''merge'' ''t2'' msg)"
    by (simp add: ex_ahead_simps)
  with h s w f g ex_ahead_merge show ?thesis by blast
qed

section \<open>Merging\<close>

text \<open>
  C6. \<open>merge\<close> is a no-op when the source branch has the uuid of the current branch or
  when the two branches have the same head commit: it returns, whatever the fuel, with
  the state it was given, so the live and archived branch lists, the current and default
  branch, both tiers of the store and the working root are unchanged and no commit is
  stored.
\<close>

theorem merge_noop:
  "uuid (objects st sourceBranch) = uuid (objects st (currentBranch st)) \<or>
   commit (objects st (currentBranch st)) = commit (objects st sourceBranch)
   \<Longrightarrow> merge cid now fuel sourceBranch st = Some (Inr st)"
  by (auto simp: merge_def Let_def)

theorem merge_noop_witness:
  "uuid (objects ex_branched 0) = uuid (objects ex_branched (currentBranch ex_branched)) \<and>
   merge plainCid ''t2'' 0 0 ex_branched = Some (Inr ex_branched) \<and>
   uuid (objects ex_branched 1) \<noteq> uuid (objects ex_branched (currentBranch ex_branched)) \<and>
   commit (objects ex_branched (currentBranch ex_branched)) = commit (objects ex_branched 1) \<and>
   merge plainCid ''t2'' 0 1 ex_branched = Some (Inr ex_branched)"
  using merge_noop [of ex_branched 0 plainCid "''t2''" 0]
    merge_noop [of ex_branched 1 plainCid "''t2''" 0]
  by (simp add: ex_branched_simps ex_init_simps)

section \<open>Common ancestors\<close>

lemma node_type_commit: "node_type n = ''commit'' \<Longrightarrow> \<exists>ps c a t m. n = Commit ps c a t m"
  by (cases n) auto

lemma ancestors_finite:
  assumes "finite (dom resolver)"
  shows "finite (ancestors resolver c)"
proof -
  let ?P = "\<Union>n\<in>ran resolver. case parents_elements n of Inr ps \<Rightarrow> set ps | Inl e \<Rightarrow> {}"
  have "x \<in> insert c ?P" if "x \<in> ancestors resolver c" for x
    using that
  proof (induction rule: ancestors.induct)
    case self
    then show ?case by simp
  next
    case (parent x ps content author ts msg p)
    then have "Commit ps content author ts msg \<in> ran resolver" by (auto simp: ran_def)
    with parent(3) show ?case by force
  qed
  then have "ancestors resolver c \<subseteq> insert c ?P" by blast
  moreover have "finite (insert c ?P)"
    using assms by (auto simp: finite_ran split: sum.splits)
  ultimately show ?thesis by (rule finite_subset)
qed

lemma isAncestor_loop_False:
  assumes fin: "finite R"
    and closed: "\<And>x ps c a t m. x \<in> R \<Longrightarrow> resolver x = Some (Commit ps c a t m) \<Longrightarrow> set ps \<subseteq> R"
    and typed: "commitsOnly resolver R"
    and target: "target \<notin> R"
  shows "set queue \<subseteq> R \<Longrightarrow> visited \<subseteq> R \<Longrightarrow>
         isAncestor_loop resolver target queue visited = Some (Inr False)"
proof (induction "card (R - visited)" arbitrary: queue visited rule: less_induct)
  case less
  from less.prems show ?case
  proof (induction queue)
    case Nil
    then show ?case by (simp add: isAncestor_loop.simps [of _ _ "[]"])
  next
    case (Cons c rest)
    from Cons.prems target have ne: "c \<noteq> target" and cR: "c \<in> R" and restR: "set rest \<subseteq> R"
      by auto
    show ?case
    proof (cases "c \<in> visited")
      case True
      with ne Cons.IH [OF restR Cons.prems(2)] show ?thesis
        by (simp add: isAncestor_loop.simps [of _ _ "c # rest"])
    next
      case False
      with cR fin have dec: "card (R - insert c visited) < card (R - visited)"
        by (intro psubset_card_mono) auto
      from cR Cons.prems(2) have vis: "insert c visited \<subseteq> R" by simp
      show ?thesis
      proof (cases "resolver c")
        case None
        with ne False less.hyps [OF dec restR vis] show ?thesis
          by (simp add: isAncestor_loop.simps [of _ _ "c # rest"])
      next
        case (Some n)
        with typed cR have "node_type n = ''commit''" by (auto simp: commitsOnly_def)
        then obtain ps cn a t m where n: "n = Commit ps cn a t m"
          using node_type_commit by blast
        with Some closed [OF cR] have "set ps \<subseteq> R" by simp
        with restR have q: "set (rest @ ps) \<subseteq> R" by simp
        from ne False Some n less.hyps [OF dec q vis] show ?thesis
          by (simp add: isAncestor_loop.simps [of _ _ "c # rest"])
      qed
    qed
  qed
qed

lemma isAncestor_not_ancestor:
  assumes "finite (dom resolver)" "commitsOnly resolver (ancestors resolver d)"
    "target \<notin> ancestors resolver d"
  shows "isAncestor target d resolver = Some (Inr False)"
  unfolding isAncestor_def
proof (rule isAncestor_loop_False [where R = "ancestors resolver d"])
  show "finite (ancestors resolver d)" using assms(1) by (rule ancestors_finite)
  show "set ps \<subseteq> ancestors resolver d"
    if "x \<in> ancestors resolver d" "resolver x = Some (Commit ps c a t m)" for x ps c a t m
    using that by (auto intro: ancestors.parent)
qed (use assms in \<open>auto intro: ancestors.self\<close>)

lemma ancestors_step:
  assumes "resolver c = Some (Commit ps cn a t m)"
  shows "ancestors resolver c \<subseteq> insert c (\<Union>p\<in>set ps. ancestors resolver p)"
proof
  fix x assume "x \<in> ancestors resolver c"
  then show "x \<in> insert c (\<Union>p\<in>set ps. ancestors resolver p)"
  proof (induction rule: ancestors.induct)
    case self
    then show ?case by simp
  next
    case (parent x ps' content author ts msg p)
    show ?case
    proof (cases "x = c")
      case True
      with parent assms have "p \<in> set ps" by simp
      then show ?thesis by (auto intro: ancestors.self)
    next
      case False
      with parent.IH obtain q where "q \<in> set ps" "x \<in> ancestors resolver q" by auto
      with parent.hyps(2,3) show ?thesis by (auto intro: ancestors.parent)
    qed
  qed
qed

text \<open>
  C8. In a finite store with distinct commits \<open>C0\<close>, \<open>C1\<close>, \<open>C2\<close>, \<open>C3\<close>, where the
  parent of \<open>C1\<close> is \<open>C0\<close>, the parent of \<open>C2\<close> and of \<open>C3\<close> is \<open>C1\<close>, branch \<open>A\<close> is at
  \<open>C2\<close> and branch \<open>B\<close> at \<open>C3\<close>: \<open>findCommonAncestor A B\<close> returns \<open>C1\<close>,
  \<open>isAncestor C1 C2\<close> returns true and \<open>isAncestor C2 C1\<close> returns false. The history
  before \<open>C0\<close> is arbitrary, as long as it is a history: every ancestor of \<open>C0\<close> that
  resolves is a commit, and \<open>C2\<close> is not among the ancestors of \<open>C0\<close>.
\<close>

theorem ancestor_scenario:
  assumes dist: "distinct [c0, c1, c2, c3]"
    and r0: "resolver c0 = Some (Commit ps0 x0 a0 t0 m0)"
    and r1: "resolver c1 = Some (Commit [c0] x1 a1 t1 m1)"
    and r2: "resolver c2 = Some (Commit [c1] x2 a2 t2 m2)"
    and r3: "resolver c3 = Some (Commit [c1] x3 a3 t3 m3)"
    and heads: "commit branchA = c2" "commit branchB = c3"
    and fin: "finite (dom resolver)"
    and typed: "commitsOnly resolver (ancestors resolver c0)"
    and acyclic: "c2 \<notin> ancestors resolver c0"
  shows "findCommonAncestor branchA branchB resolver = Some (Inr (Some c1)) \<and>
         isAncestor c1 c2 resolver = Some (Inr True) \<and>
         isAncestor c2 c1 resolver = Some (Inr False)"
proof (intro conjI)
  from dist r1 r2 r3 heads
  show "findCommonAncestor branchA branchB resolver = Some (Inr (Some c1))"
    by (auto simp add: findCommonAncestor_def
        findCommonAncestor_loop.simps [of resolver "[c2]" "[c3]"]
        findCommonAncestor_loop.simps [of resolver "[c1]" "[c1]"])
  from dist r2 show "isAncestor c1 c2 resolver = Some (Inr True)"
    by (simp add: isAncestor_def isAncestor_loop.simps [of resolver c1 "[c2]"]
        isAncestor_loop.simps [of resolver c1 "[c1]"])
  have sub: "ancestors resolver c1 \<subseteq> insert c1 (ancestors resolver c0)"
    using ancestors_step [of resolver c1 "[c0]" x1 a1 t1 m1] r1 by simp
  with dist acyclic have "c2 \<notin> ancestors resolver c1" by auto
  moreover from sub typed r1 have "commitsOnly resolver (ancestors resolver c1)"
    by (auto simp: commitsOnly_def)
  ultimately show "isAncestor c2 c1 resolver = Some (Inr False)"
    using fin by (intro isAncestor_not_ancestor)
qed

lemma ex_history_simps:
  "ex_history (plainCid ex_commit0) = Some ex_commit0"
  "ex_history (plainCid ex_commit1) = Some ex_commit1"
  "ex_history (plainCid ex_commit2) = Some ex_commit2"
  "ex_history (plainCid ex_commit3) = Some ex_commit3"
  by (simp_all add: ex_history_def plainCid_eq_iff ex_commit0_def ex_commit1_def
      ex_commit2_def ex_commit3_def)

lemma ex_history_root: "ancestors ex_history (plainCid ex_commit0) = {plainCid ex_commit0}"
proof -
  have "ex_history (plainCid ex_commit0)
          = Some (Commit [] (plainCid (GrammarRoot [])) ''system'' ''t0'' ''initial commit'')"
    using ex_history_simps(1) by (simp add: ex_commit0_def)
  from ancestors_step [of ex_history "plainCid ex_commit0", OF this] show ?thesis
    by (auto intro: ancestors.self)
qed

theorem ancestor_scenario_witness:
  "distinct [plainCid ex_commit0, plainCid ex_commit1, plainCid ex_commit2, plainCid ex_commit3] \<and>
   finite (dom ex_history) \<and>
   commitsOnly ex_history (ancestors ex_history (plainCid ex_commit0)) \<and>
   plainCid ex_commit2 \<notin> ancestors ex_history (plainCid ex_commit0) \<and>
   findCommonAncestor ex_branchA ex_branchB ex_history = Some (Inr (Some (plainCid ex_commit1))) \<and>
   isAncestor (plainCid ex_commit1) (plainCid ex_commit2) ex_history = Some (Inr True) \<and>
   isAncestor (plainCid ex_commit2) (plainCid ex_commit1) ex_history = Some (Inr False)"
proof -
  have d: "distinct [plainCid ex_commit0, plainCid ex_commit1, plainCid ex_commit2,
                     plainCid ex_commit3]"
    by (simp add: ex_commit0_def ex_commit1_def ex_commit2_def ex_commit3_def plainCid_eq_iff)
  have f: "finite (dom ex_history)" by (simp add: ex_history_def)
  have t: "commitsOnly ex_history (ancestors ex_history (plainCid ex_commit0))"
    by (simp add: ex_history_root commitsOnly_def ex_history_simps, simp add: ex_commit0_def)
  have a: "plainCid ex_commit2 \<notin> ancestors ex_history (plainCid ex_commit0)"
    by (simp add: ex_history_root plainCid_eq_iff, simp add: ex_commit0_def ex_commit2_def)
  from ancestor_scenario [of "plainCid ex_commit0" "plainCid ex_commit1" "plainCid ex_commit2"
      "plainCid ex_commit3" ex_history "[]" "plainCid (GrammarRoot [])" "''system''" "''t0''"
      "''initial commit''" "plainCid (GrammarRoot [])" "''alice''" "''t1''" "''work''"
      "plainCid (GrammarRoot [])" "''alice''" "''t2''" "''on A''"
      "plainCid (GrammarRoot [])" "''bob''" "''t3''" "''on B''" ex_branchA ex_branchB]
    d f t a
  show ?thesis
    by (simp add: ex_history_simps ex_commit0_def [symmetric] ex_commit1_def [symmetric]
        ex_commit2_def [symmetric] ex_commit3_def [symmetric] ex_branchA_def ex_branchB_def)
qed

section \<open>The recursive directory merge\<close>

lemma storeExtends_refl: "storeExtends st st"
  by (simp add: storeExtends_def)

lemma storeExtends_trans: "storeExtends a b \<Longrightarrow> storeExtends b c \<Longrightarrow> storeExtends a c"
  by (simp add: storeExtends_def)

lemma keyedAs_extends: "keyedAs st nm c \<Longrightarrow> storeExtends st st' \<Longrightarrow> keyedAs st' nm c"
  by (auto simp: keyedAs_def storeExtends_def)

lemma isFolder_extends:
  "resolve st c \<noteq> None \<Longrightarrow> storeExtends st st' \<Longrightarrow> isFolder (resolve st' c) = isFolder (resolve st c)"
  by (auto simp: storeExtends_def)

text \<open>Storing a node in the source-of-truth tier.\<close>

lemma sot_put:
  fixes n :: node
  assumes "inj cid" "consistent cid st"
  defines "st' \<equiv> st\<lparr> sourceOfTruth := (sourceOfTruth st)(cid n \<mapsto> n) \<rparr>"
  shows "consistent cid st'" "storeExtends st st'" "resolve st' (cid n) = Some n"
proof -
  show "consistent cid st'"
    using assms(2) by (auto simp: consistent_def st'_def)
  show "storeExtends st st'"
    using assms(1,2)
    by (auto simp: storeExtends_def st'_def resolve_unfold consistent_def dest: injD
        split: option.splits)
  show "resolve st' (cid n) = Some n"
    using assms(1,2)
    by (auto simp: st'_def resolve_unfold consistent_def dest: injD split: option.splits)
qed

text \<open>The association lists built from a list of children.\<close>

lemma in_update_cases:
  "(a, b) \<in> set (AList.update k v al) \<Longrightarrow> (a, b) = (k, v) \<or> (a, b) \<in> set al"
  by (induction al) (auto split: if_splits)

lemma childrenMap_invariant:
  "distinct (map fst (childrenMap st cids)) \<and>
   (\<forall>(nm, c) \<in> set (childrenMap st cids). c \<in> set cids \<and> keyedAs st nm c)"
proof -
  let ?f = "\<lambda>m childCid. case resolve st childCid of None \<Rightarrow> m
              | Some child \<Rightarrow> AList.update (childKey child) childCid m"
  have "distinct (map fst (foldl ?f m cids)) \<and>
        (\<forall>(nm, c) \<in> set (foldl ?f m cids). (c \<in> set cids \<or> (nm, c) \<in> set m) \<and> keyedAs st nm c)"
    if "distinct (map fst m)" "\<forall>(nm, c) \<in> set m. keyedAs st nm c" for m
    using that
  proof (induction cids arbitrary: m)
    case Nil
    then show ?case by auto
  next
    case (Cons x xs)
    have d: "distinct (map fst (?f m x))"
      using Cons.prems(1) by (auto split: option.splits intro: distinct_update)
    have k: "\<forall>(nm, c) \<in> set (?f m x). keyedAs st nm c"
      using Cons.prems(2) by (auto split: option.splits dest!: in_update_cases simp: keyedAs_def)
    have s: "\<forall>(nm, c) \<in> set (?f m x). c = x \<or> (nm, c) \<in> set m"
      by (auto split: option.splits dest!: in_update_cases)
    from Cons.IH [OF d k] s show ?case by fastforce
  qed
  from this [of "[]"] show ?thesis by (simp add: childrenMap_def)
qed


lemma isFolder_keyed:
  "isFolder (resolve st c) \<Longrightarrow> keyedAs st nm c \<Longrightarrow> \<exists>cs. resolve st c = Some (Folder nm cs)"
  by (cases "resolve st c"; cases "the (resolve st c)") (auto simp: isFolder_def keyedAs_def)

lemma keyed_transfer:
  assumes "keyedAs st nm c \<and> isFolder (resolve st c) = F c" "storeExtends st st1"
  shows "keyedAs st1 nm c \<and> isFolder (resolve st1 c) = F c"
proof -
  from assms obtain child where "resolve st c = Some child" by (auto simp: keyedAs_def)
  with assms(2) have "resolve st1 c = resolve st c" by (simp add: storeExtends_def)
  with assms show ?thesis by (simp add: keyedAs_def)
qed

lemma mergeChildren_result:
  assumes rec: "\<And>st a b st' r. consistent cid st \<Longrightarrow> rec st a b = Some (Inr (st', r)) \<Longrightarrow>
      consistent cid st' \<and> storeExtends st st' \<and>
      (\<forall>n cs. resolve st a = Some (Folder n cs) \<longrightarrow> resolve st b \<noteq> None \<longrightarrow> keyedAs st' n r)"
  shows "consistent cid st \<Longrightarrow>
    (\<forall>(nm, c) \<in> set cur. keyedAs st nm c \<and> isFolder (resolve st c) = F c) \<Longrightarrow>
    (\<forall>nm c. map_of src nm = Some c \<longrightarrow> keyedAs st nm c \<and> isFolder (resolve st c) = F c) \<Longrightarrow>
    mergeChildren rec src cur st acc = Some (Inr (st', out)) \<Longrightarrow>
    consistent cid st' \<and> storeExtends st st' \<and>
    (\<exists>new. out = acc @ new \<and>
       list_all2 (\<lambda>(nm, cc) c'. keyedAs st' nm c' \<and>
          (\<forall>sc. map_of src nm = Some sc \<and> sc \<noteq> [] \<and> \<not> (F cc \<and> F sc) \<longrightarrow> c' = sc)) cur new)"
proof (induction cur arbitrary: st acc)
  case Nil
  then show ?case by (simp add: storeExtends_refl)
next
  case (Cons e rest)
  obtain nm cc where e: "e = (nm, cc)" by (cases e)
  from Cons.prems(2) e have kcc: "keyedAs st nm cc" and fcc: "isFolder (resolve st cc) = F cc"
    and restk: "\<forall>(nm, c) \<in> set rest. keyedAs st nm c \<and> isFolder (resolve st c) = F c"
    by auto
  let ?R = "\<lambda>(nm, cc) c'. keyedAs st' nm c' \<and>
          (\<forall>sc. map_of src nm = Some sc \<and> sc \<noteq> [] \<and> \<not> (F cc \<and> F sc) \<longrightarrow> c' = sc)"
  have keep: ?case
    if run: "mergeChildren rec src rest st (acc @ [c']) = Some (Inr (st', out))"
      and k: "keyedAs st nm c'"
      and w: "\<forall>sc. map_of src nm = Some sc \<and> sc \<noteq> [] \<and> \<not> (F cc \<and> F sc) \<longrightarrow> c' = sc"
    for c'
  proof -
    from Cons.IH [OF Cons.prems(1) restk Cons.prems(3) run]
    obtain new where c: "consistent cid st'" and x: "storeExtends st st'"
      and o: "out = (acc @ [c']) @ new" and l: "list_all2 ?R rest new" by blast
    from k x have "keyedAs st' nm c'" by (rule keyedAs_extends)
    with w l e have "list_all2 ?R (e # rest) (c' # new)" by simp
    with c x o show ?thesis by (intro conjI exI [of _ "c' # new"]) simp_all
  qed
  show ?case
  proof (cases "map_of src nm")
    case None
    with Cons.prems(4) e have "mergeChildren rec src rest st (acc @ [cc]) = Some (Inr (st', out))"
      by simp
    moreover have "\<forall>sc. map_of src nm = Some sc \<and> sc \<noteq> [] \<and> \<not> (F cc \<and> F sc) \<longrightarrow> cc = sc"
      using None by simp
    ultimately show ?thesis using kcc by (intro keep)
  next
    case (Some sc)
    with Cons.prems(3) have ksc: "keyedAs st nm sc" and fsc: "isFolder (resolve st sc) = F sc"
      by auto
    show ?thesis
    proof (cases "sc = []")
      case True
      with Some Cons.prems(4) e
      have "mergeChildren rec src rest st (acc @ [cc]) = Some (Inr (st', out))" by simp
      moreover have "\<forall>sc. map_of src nm = Some sc \<and> sc \<noteq> [] \<and> \<not> (F cc \<and> F sc) \<longrightarrow> cc = sc"
        using Some True by simp
      ultimately show ?thesis using kcc by (intro keep)
    next
      case False
      show ?thesis
      proof (cases "F cc \<and> F sc")
        case False
        with Some \<open>sc \<noteq> []\<close> Cons.prems(4) e fcc fsc
        have "mergeChildren rec src rest st (acc @ [sc]) = Some (Inr (st', out))" by simp
        moreover have "\<forall>sc'. map_of src nm = Some sc' \<and> sc' \<noteq> [] \<and> \<not> (F cc \<and> F sc') \<longrightarrow> sc = sc'"
          using Some by simp
        ultimately show ?thesis using ksc by (intro keep)
      next
        case True
        with Some \<open>sc \<noteq> []\<close> Cons.prems(4) e fcc fsc
        obtain st1 m where r1: "rec st cc sc = Some (Inr (st1, m))"
          and run: "mergeChildren rec src rest st1 (acc @ [m]) = Some (Inr (st', out))"
          by (auto split: option.splits sum.splits)
        from True fcc kcc obtain cs where rc: "resolve st cc = Some (Folder nm cs)"
          using isFolder_keyed by blast
        from ksc have rs: "resolve st sc \<noteq> None" by (auto simp: keyedAs_def)
        from rec [OF Cons.prems(1) r1] rc rs
        have c1: "consistent cid st1" and x1: "storeExtends st st1" and km: "keyedAs st1 nm m"
          by blast+
        have restk1: "\<forall>(nm, c) \<in> set rest. keyedAs st1 nm c \<and> isFolder (resolve st1 c) = F c"
          using restk x1 keyed_transfer [where st = st and ?st1.0 = st1 and F = F] by fast
        have srck1: "\<forall>nm c. map_of src nm = Some c \<longrightarrow>
                        keyedAs st1 nm c \<and> isFolder (resolve st1 c) = F c"
          using Cons.prems(3) x1 keyed_transfer [where st = st and ?st1.0 = st1 and F = F] by fast
        from Cons.IH [OF c1 restk1 srck1 run]
        obtain new where c: "consistent cid st'" and x: "storeExtends st1 st'"
          and o: "out = (acc @ [m]) @ new" and l: "list_all2 ?R rest new" by blast
        from km x have "keyedAs st' nm m" by (rule keyedAs_extends)
        with True l e Some have "list_all2 ?R (e # rest) (m # new)" by simp
        moreover from x1 x have "storeExtends st st'" by (rule storeExtends_trans)
        ultimately show ?thesis using c o by (intro conjI exI [of _ "m # new"]) simp_all
      qed
    qed
  qed
qed


lemma childrenMap_keyed:
  "\<forall>(nm, c) \<in> set (childrenMap st cids).
      keyedAs st nm c \<and> isFolder (resolve st c) = isFolder (resolve st c)"
  using childrenMap_invariant [of st cids] by auto

lemma childrenMap_lookup_keyed:
  "\<forall>nm c. map_of (childrenMap st cids) nm = Some c \<longrightarrow>
      keyedAs st nm c \<and> isFolder (resolve st c) = isFolder (resolve st c)"
  using childrenMap_invariant [of st cids] by (auto dest: map_of_SomeD)

lemma mergeChildren_on_maps:
  assumes rec: "\<And>st a b st' r. consistent cid st \<Longrightarrow> rec st a b = Some (Inr (st', r)) \<Longrightarrow>
      consistent cid st' \<and> storeExtends st st' \<and>
      (\<forall>n cs. resolve st a = Some (Folder n cs) \<longrightarrow> resolve st b \<noteq> None \<longrightarrow> keyedAs st' n r)"
    and c: "consistent cid st"
    and run: "mergeChildren rec (childrenMap st ys) (childrenMap st xs) st [] = Some (Inr (st1, out))"
  shows "consistent cid st1 \<and> storeExtends st st1 \<and>
    list_all2 (\<lambda>(nm, cc) c'. keyedAs st1 nm c' \<and>
       (\<forall>sc. map_of (childrenMap st ys) nm = Some sc \<and> sc \<noteq> [] \<and>
             \<not> (isFolder (resolve st cc) \<and> isFolder (resolve st sc)) \<longrightarrow> c' = sc))
      (childrenMap st xs) out"
  using mergeChildren_result [where rec = rec and cid = cid and F = "\<lambda>c. isFolder (resolve st c)",
      OF rec c childrenMap_keyed childrenMap_lookup_keyed run]
  by simp

lemma mergeDirectories_good:
  assumes inj: "inj cid"
  shows "consistent cid st \<Longrightarrow> mergeDirectories cid fuel st a b = Some (Inr (st', r)) \<Longrightarrow>
     consistent cid st' \<and> storeExtends st st' \<and>
     (\<forall>n cs. resolve st a = Some (Folder n cs) \<longrightarrow> resolve st b \<noteq> None \<longrightarrow> keyedAs st' n r)"
proof (induction fuel arbitrary: st a b st' r)
  case 0
  then show ?case by simp
next
  case (Suc fuel)
  show ?case
  proof (cases "resolve st a")
    case None
    with Suc.prems show ?thesis by (simp add: storeExtends_refl)
  next
    case current: (Some current)
    show ?thesis
    proof (cases "resolve st b")
      case None
      with current Suc.prems show ?thesis by (simp add: storeExtends_refl)
    next
      case source: (Some source)
      from Suc.prems(2) current source obtain st1 merged1 n where
        run: "mergeChildren (mergeDirectories cid fuel) (childrenMap st (node_children source))
                (childrenMap st (node_children current)) st [] = Some (Inr (st1, merged1))"
        and nm: "node_name current = Some n"
        and st': "st' = st1\<lparr> sourceOfTruth := (sourceOfTruth st1)
            (cid (Folder n (merged1 @ sourceOnly (childrenMap st (node_children current))
                                 (childrenMap st (node_children source)))) \<mapsto>
             Folder n (merged1 @ sourceOnly (childrenMap st (node_children current))
                                 (childrenMap st (node_children source)))) \<rparr>"
        and r: "r = cid (Folder n (merged1 @ sourceOnly (childrenMap st (node_children current))
                                 (childrenMap st (node_children source))))"
        by (auto simp: Let_def KVStore_put_def split: option.splits sum.splits prod.splits)
      from mergeChildren_on_maps [where rec = "mergeDirectories cid fuel" and cid = cid,
          OF Suc.IH Suc.prems(1) run]
      have c1: "consistent cid st1" and x1: "storeExtends st st1" by blast+
      from sot_put [OF inj c1] st' r
      have "consistent cid st'" "storeExtends st1 st'"
        "resolve st' r = Some (Folder n (merged1 @ sourceOnly (childrenMap st (node_children current))
                                 (childrenMap st (node_children source))))"
        by simp_all
      with x1 current nm show ?thesis
        by (auto simp: keyedAs_def intro: storeExtends_trans)
    qed
  qed
qed


lemma resolve_consistent: "consistent cid st \<Longrightarrow> resolve st k = Some n \<Longrightarrow> cid n = k"
  by (auto simp: consistent_def resolve_unfold split: option.splits)




lemma isFolder_named: "isFolder (resolve st c) \<Longrightarrow> resolve st c = Some n \<Longrightarrow> node_name n \<noteq> None"
  by (cases n) (auto simp: isFolder_def)

lemma mergeChildren_total:
  assumes good: "\<And>st a b st' r. consistent cid st \<Longrightarrow> rec st a b = Some (Inr (st', r)) \<Longrightarrow>
      consistent cid st'"
    and total: "\<And>st a b. consistent cid st \<Longrightarrow> isFolder (resolve st a) \<Longrightarrow> a \<in> A \<Longrightarrow>
      \<exists>st' r. rec st a b = Some (Inr (st', r))"
  shows "consistent cid st \<Longrightarrow> snd ` set cur \<subseteq> A \<Longrightarrow>
         \<exists>st' out. mergeChildren rec src cur st acc = Some (Inr (st', out))"
proof (induction cur arbitrary: st acc)
  case Nil
  then show ?case by simp
next
  case (Cons e rest)
  obtain nm cc where e: "e = (nm, cc)" by (cases e)
  from Cons.prems(2) e have ccA: "cc \<in> A" and restA: "snd ` set rest \<subseteq> A" by auto
  note IH = Cons.IH [OF _ restA]
  show ?case
  proof (cases "map_of src nm")
    case None
    with e IH [OF Cons.prems(1)] show ?thesis by simp
  next
    case (Some sc)
    show ?thesis
    proof (cases "sc \<noteq> [] \<and> isFolder (resolve st cc) \<and> isFolder (resolve st sc)")
      case False
      with e Some IH [OF Cons.prems(1)] show ?thesis by auto
    next
      case True
      have "\<exists>st' r. rec st cc sc = Some (Inr (st', r))"
        using Cons.prems(1) True ccA by (intro total) simp_all
      then obtain st1 m where r: "rec st cc sc = Some (Inr (st1, m))" by blast
      have "consistent cid st1" using Cons.prems(1) r by (rule good)
      from IH [OF this, of "acc @ [m]"] e Some True r show ?thesis by simp
    qed
  qed
qed

lemma childrenMap_values: "snd ` set (childrenMap st cids) \<subseteq> set cids"
  using childrenMap_invariant [of st cids] by auto

lemma mergeDirectories_total:
  assumes inj: "inj cid"
    and ranked: "\<forall>n. \<forall>c\<in>set (node_children n). rk c < rk (cid n)"
  shows "consistent cid st \<Longrightarrow> rk a < fuel \<Longrightarrow>
    (\<forall>current. resolve st a = Some current \<longrightarrow> resolve st b \<noteq> None \<longrightarrow> node_name current \<noteq> None) \<Longrightarrow>
    \<exists>st' r. mergeDirectories cid fuel st a b = Some (Inr (st', r))"
proof (induction fuel arbitrary: st a b)
  case 0
  then show ?case by simp
next
  case (Suc fuel)
  show ?case
  proof (cases "resolve st a")
    case None
    then show ?thesis by simp
  next
    case current: (Some current)
    show ?thesis
    proof (cases "resolve st b")
      case None
      with current show ?thesis by simp
    next
      case source: (Some source)
      with current Suc.prems(3) obtain n where n: "node_name current = Some n" by auto
      from Suc.prems(1) current have "cid current = a" by (rule resolve_consistent)
      with ranked Suc.prems(2) have small: "set (node_children current) \<subseteq> {c. rk c < fuel}"
        by fastforce
      have "\<exists>st1 out.
        mergeChildren (mergeDirectories cid fuel) (childrenMap st (node_children source))
           (childrenMap st (node_children current)) st [] = Some (Inr (st1, out))"
      proof (rule mergeChildren_total [where cid = cid and A = "{c. rk c < fuel}"])
        show "consistent cid st'"
          if "consistent cid st" "mergeDirectories cid fuel st a b = Some (Inr (st', r))"
          for st a b st' r
          using mergeDirectories_good [OF inj that] by simp
        show "\<exists>st' r. mergeDirectories cid fuel st a b = Some (Inr (st', r))"
          if "consistent cid st" "isFolder (resolve st a)" "a \<in> {c. rk c < fuel}" for st a b
          using that by (intro Suc.IH) (auto dest: isFolder_named)
        show "consistent cid st" by fact
        from childrenMap_values [of st "node_children current"] small
        show "snd ` set (childrenMap st (node_children current)) \<subseteq> {c. rk c < fuel}" by blast
      qed
      then obtain st1 out where
        "mergeChildren (mergeDirectories cid fuel) (childrenMap st (node_children source))
           (childrenMap st (node_children current)) st [] = Some (Inr (st1, out))" by blast
      with current source n show ?thesis by (simp add: Let_def KVStore_put_def)
    qed
  qed
qed


lemma length_encList_member: "c \<in> set xs \<Longrightarrow> length c < length (encList xs)"
  by (induction xs) (auto simp: encList_def encStr_def)

lemma plainCid_ranked: "\<forall>n. \<forall>c\<in>set (node_children n). length c < length (plainCid n)"
proof (intro allI ballI)
  fix n c assume "c \<in> set (node_children n)"
  then have "c \<in> set (nodeFields n)" by (cases n) auto
  then show "length c < length (plainCid n)"
    unfolding plainCid_def by (rule length_encList_member)
qed







section \<open>Updating a node\<close>

lemma ex_tree_simps:
  "workInProgress ex_tree =
     [plainCid ex_note \<mapsto> ex_note, plainCid ex_notes \<mapsto> ex_notes, plainCid ex_root \<mapsto> ex_root]"
  "workingRootCid ex_tree = plainCid ex_root"
  by (simp_all add: ex_tree_def setRoot_fields put_fields ex_init_simps)

text \<open>
  C1. \<open>updateNode\<close> does not reach a reference below the root node, since
  \<open>replaceInTree\<close> rewrites the entries of the root object and never resolves a CID. With
  the tree \<open>notes/todo\<close> as working root, updating the document \<open>todo\<close> stores the new
  document and changes nothing else: the result is the state a \<open>put\<close> of the new document
  gives, the working root is the same CID, it resolves to the root that holds the old
  directory, and that directory holds the CID of the old document. So the occurrence of
  the old CID reachable from the working root is not replaced and no ancestor gets a new
  CID.
\<close>

theorem updateNode_keeps_nested_reference:
  "updateNode plainCid (plainCid ex_note) ex_renamed ex_tree
     = Inr (fst (put plainCid ex_renamed ex_tree), plainCid ex_renamed) \<and>
   workingRootCid (fst (put plainCid ex_renamed ex_tree)) = workingRootCid ex_tree \<and>
   resolve (fst (put plainCid ex_renamed ex_tree)) (workingRootCid ex_tree)
     = Some (GrammarRoot [plainCid ex_notes]) \<and>
   resolve (fst (put plainCid ex_renamed ex_tree)) (plainCid ex_notes)
     = Some (Folder ''notes'' [plainCid ex_note]) \<and>
   plainCid ex_note \<noteq> plainCid ex_renamed"
proof -
  let ?st1 = "fst (put plainCid ex_renamed ex_tree)"
  have w: "workInProgress ?st1 = (workInProgress ex_tree)(plainCid ex_renamed \<mapsto> ex_renamed)"
    and wr: "workingRootCid ?st1 = plainCid ex_root"
    by (simp_all add: put_fields ex_tree_simps)
  have d: "ex_root \<noteq> ex_renamed" "ex_notes \<noteq> ex_renamed" "ex_notes \<noteq> ex_root"
    by (simp_all add: ex_root_def ex_renamed_def ex_notes_def)
  have r: "resolve ?st1 (plainCid ex_root) = Some ex_root"
    by (simp add: resolve_unfold w ex_tree_simps plainCid_eq_iff d)
  have n: "resolve ?st1 (plainCid ex_notes) = Some ex_notes"
    by (simp add: resolve_unfold w ex_tree_simps plainCid_eq_iff d)
  have ne: "plainCid ex_note \<noteq> plainCid ex_renamed"
    by (simp add: plainCid_eq_iff ex_note_def ex_renamed_def)
  have same: "replaceInTree ex_root (plainCid ex_note) (plainCid ex_renamed) = Some ex_root"
    by (simp add: replaceInTree_def ex_root_def replaceValue_def plainCid_eq_iff ex_notes_def
        ex_note_def)
       (simp add: plainCid_def encList_def encStr_def)
  have "workInProgress ?st1 (plainCid ex_root) = Some ex_root"
    by (simp add: w ex_tree_simps plainCid_eq_iff d)
  then have idem: "(workInProgress ?st1)(plainCid ex_root \<mapsto> ex_root) = workInProgress ?st1"
    by (rule fun_upd_idem)
  have "updateNode plainCid (plainCid ex_note) ex_renamed ex_tree
     = Inr (?st1, plainCid ex_renamed)"
    using r same idem wr
    by (simp add: updateNode_def KVStore_put_def Let_def put_def)
  with r n wr ne show ?thesis
    by (simp add: ex_tree_simps ex_root_def ex_notes_def)
qed

section \<open>Termination of a merge\<close>

lemma namedDir_extends: "namedDir st c \<Longrightarrow> storeExtends st st' \<Longrightarrow> namedDir st' c"
  by (auto simp: namedDir_def storeExtends_def)

lemma dirsMap_named: "\<forall>(nm, c) \<in> set (dirsMap st cids). c \<in> set cids \<and> namedDir st c"
proof -
  let ?f = "\<lambda>m dirCid. case resolve st dirCid of None \<Rightarrow> m
     | Some dir \<Rightarrow> (case node_name dir of None \<Rightarrow> m
         | Some n \<Rightarrow> if n = [] then m else AList.update n dirCid m)"
  have "\<forall>(nm, c) \<in> set (foldl ?f m cids). (c \<in> set cids \<or> (nm, c) \<in> set m) \<and> namedDir st c"
    if "\<forall>(nm, c) \<in> set m. namedDir st c" for m
    using that
  proof (induction cids arbitrary: m)
    case Nil
    then show ?case by auto
  next
    case (Cons x xs)
    have k: "\<forall>(nm, c) \<in> set (?f m x). namedDir st c"
      using Cons.prems
      by (auto split: option.splits if_splits dest!: in_update_cases simp: namedDir_def)
    have s: "\<forall>(nm, c) \<in> set (?f m x). c = x \<or> (nm, c) \<in> set m"
      by (auto split: option.splits if_splits dest!: in_update_cases)
    from Cons.IH [OF k] s show ?case by fastforce
  qed
  from this [of "[]"] show ?thesis by (simp add: dirsMap_def)
qed

lemma mergeDirs_total:
  assumes good: "\<And>st a b st' r. consistent cid st \<Longrightarrow> rec st a b = Some (Inr (st', r)) \<Longrightarrow>
      consistent cid st' \<and> storeExtends st st'"
    and total: "\<And>st a b. consistent cid st \<Longrightarrow> namedDir st a \<Longrightarrow> a \<in> A \<Longrightarrow>
      \<exists>st' r. rec st a b = Some (Inr (st', r))"
  shows "consistent cid st \<Longrightarrow> \<forall>(nm, c) \<in> set cur. c \<in> A \<and> namedDir st c \<Longrightarrow>
         \<exists>st' out. mergeDirs rec src cur st acc = Some (Inr (st', out))"
proof (induction cur arbitrary: st acc)
  case Nil
  then show ?case by simp
next
  case (Cons e rest)
  obtain nm cc where e: "e = (nm, cc)" by (cases e)
  from Cons.prems(2) e have ccA: "cc \<in> A" and ccN: "namedDir st cc"
    and restA: "\<forall>(nm, c) \<in> set rest. c \<in> A \<and> namedDir st c" by auto
  show ?case
  proof (cases "\<exists>sc. map_of src nm = Some sc \<and> sc \<noteq> []")
    case False
    with e Cons.IH [OF Cons.prems(1) restA] show ?thesis
      by (cases "map_of src nm") auto
  next
    case True
    then obtain sc where sc: "map_of src nm = Some sc" "sc \<noteq> []" by blast
    have "\<exists>st' r. rec st cc sc = Some (Inr (st', r))"
      using Cons.prems(1) ccN ccA by (rule total)
    then obtain st1 m where r: "rec st cc sc = Some (Inr (st1, m))" by blast
    from good [OF Cons.prems(1) r] have c1: "consistent cid st1" and x1: "storeExtends st st1"
      by blast+
    from restA x1 have "\<forall>(nm, c) \<in> set rest. c \<in> A \<and> namedDir st1 c"
      by (auto intro: namedDir_extends)
    from Cons.IH [OF c1 this, of "acc @ [m]"] e sc r show ?thesis by simp
  qed
qed

text \<open>
  X1. A merge returns. Let \<open>cid\<close> be collision-free, the store consistent and references
  go down in a rank \<open>rk\<close>. When the heads of the current and the source branch resolve to
  commits whose contents resolve to grammar roots, \<open>merge\<close> returns a state, without an
  error, for every fuel above the ranks of the directories of the current root.
\<close>

theorem merge_returns:
  assumes inj: "inj cid"
    and ranked: "\<forall>n. \<forall>c\<in>set (node_children n). rk c < rk (cid n)"
    and c: "consistent cid st"
    and cur: "resolve st (commit (objects st (currentBranch st))) = Some (Commit ps1 root1 a1 t1 m1)"
    and src: "resolve st (commit (objects st sourceBranch)) = Some (Commit ps2 root2 a2 t2 m2)"
    and r1: "resolve st root1 = Some (GrammarRoot dirs1)"
    and r2: "resolve st root2 = Some (GrammarRoot dirs2)"
    and fuel: "\<forall>d\<in>set dirs1. rk d < fuel"
  shows "\<exists>st'. merge cid now fuel sourceBranch st = Some (Inr st')"
proof -
  have "\<exists>st1 out. mergeDirs (mergeDirectories cid fuel) (dirsMap st dirs2) (dirsMap st dirs1) st []
          = Some (Inr (st1, out))"
  proof (rule mergeDirs_total [where cid = cid and A = "{d. rk d < fuel}"])
    show "consistent cid st' \<and> storeExtends st st'"
      if "consistent cid st" "mergeDirectories cid fuel st a b = Some (Inr (st', r))"
      for st a b st' r
      using mergeDirectories_good [OF inj that] by simp
    show "\<exists>st' r. mergeDirectories cid fuel st a b = Some (Inr (st', r))"
      if "consistent cid st" "namedDir st a" "a \<in> {d. rk d < fuel}" for st a b
      using inj ranked that(1)
    proof (rule mergeDirectories_total)
      from that(3) show "rk a < fuel" by simp
      from that(2) show "\<forall>current. resolve st a = Some current \<longrightarrow> resolve st b \<noteq> None \<longrightarrow>
          node_name current \<noteq> None"
        by (auto simp: namedDir_def)
    qed
    show "consistent cid st" by fact
    from dirsMap_named [of st dirs1] fuel
    show "\<forall>(nm, c)\<in>set (dirsMap st dirs1). c \<in> {d. rk d < fuel} \<and> namedDir st c" by auto
  qed
  then obtain st1 out where
    "mergeDirs (mergeDirectories cid fuel) (dirsMap st dirs2) (dirsMap st dirs1) st []
          = Some (Inr (st1, out))" by blast
  with cur src r1 r2 show ?thesis
    by (simp add: merge_def mergeGrammarRoots_def Let_def KVStore_put_def)
qed

theorem merge_returns_witness:
  "inj plainCid \<and> consistent plainCid ex_ahead \<and>
   resolve ex_ahead (commit (objects ex_ahead (currentBranch ex_ahead))) = Some ex_commit1 \<and>
   resolve ex_ahead (commit (objects ex_ahead (Suc 0))) = Some ex_commit0 \<and>
   resolve ex_ahead (plainCid (GrammarRoot [])) = Some (GrammarRoot []) \<and>
   (\<exists>st'. merge plainCid ''t2'' 0 (Suc 0) ex_ahead = Some (Inr st'))"
proof -
  have c: "consistent plainCid ex_ahead"
    by (auto simp: consistent_def ex_ahead_simps split: if_splits)
  have r: "resolve ex_ahead (commit (objects ex_ahead (currentBranch ex_ahead))) = Some ex_commit1"
    "resolve ex_ahead (commit (objects ex_ahead (Suc 0))) = Some ex_commit0"
    "resolve ex_ahead (plainCid (GrammarRoot [])) = Some (GrammarRoot [])"
    by (simp_all add: resolve_unfold ex_ahead_simps plainCid_eq_iff ex_commit0_def ex_commit1_def)
  have "\<exists>st'. merge plainCid ''t2'' 0 (Suc 0) ex_ahead = Some (Inr st')"
  proof (rule merge_returns [where rk = length and ?dirs1.0 = "[]" and ?dirs2.0 = "[]"
        and ?root1.0 = "plainCid (GrammarRoot [])" and ?root2.0 = "plainCid (GrammarRoot [])"])
    show "inj plainCid" by (rule plainCid_inj)
    show "\<forall>n. \<forall>c\<in>set (node_children n). length c < length (plainCid n)" by (rule plainCid_ranked)
    show "consistent plainCid ex_ahead" by (rule c)
    show "resolve ex_ahead (commit (objects ex_ahead (currentBranch ex_ahead)))
        = Some (Commit [plainCid ex_commit0] (plainCid (GrammarRoot [])) ''alice'' ''t1'' ''work'')"
      using r(1) by (simp add: ex_commit1_def)
    show "resolve ex_ahead (commit (objects ex_ahead (Suc 0)))
        = Some (Commit [] (plainCid (GrammarRoot [])) ''system'' ''t0'' ''initial commit'')"
      using r(2) by (simp add: ex_commit0_def)
  qed (simp_all add: r)
  with c r plainCid_inj show ?thesis by blast
qed

section \<open>Consistency of the store\<close>

lemma consistent_sot_put:
  "consistent cid st \<Longrightarrow> consistent cid (st\<lparr> sourceOfTruth := (sourceOfTruth st)(cid n \<mapsto> n) \<rparr>)"
  by (auto simp: consistent_def)

lemma mergeDirectories_consistent:
  "mergeDirectories cid fuel st a b = Some (Inr (st', r)) \<Longrightarrow> consistent cid st \<longrightarrow> consistent cid st'"
proof (induction fuel arbitrary: st a b st' r)
  case 0
  then show ?case by simp
next
  case (Suc fuel)
  show ?case
  proof (cases "resolve st a = None \<or> resolve st b = None")
    case True
    with Suc.prems show ?thesis by (auto split: option.splits)
  next
    case False
    then obtain current source where cs: "resolve st a = Some current" "resolve st b = Some source"
      by auto
    from Suc.prems cs obtain st1 merged1 n where
      run: "mergeChildren (mergeDirectories cid fuel) (childrenMap st (node_children source))
                (childrenMap st (node_children current)) st [] = Some (Inr (st1, merged1))"
      and st': "st' = st1\<lparr> sourceOfTruth := (sourceOfTruth st1)
            (cid (Folder n (merged1 @ sourceOnly (childrenMap st (node_children current))
                                 (childrenMap st (node_children source)))) \<mapsto>
             Folder n (merged1 @ sourceOnly (childrenMap st (node_children current))
                                 (childrenMap st (node_children source)))) \<rparr>"
      by (auto simp: Let_def KVStore_put_def split: option.splits sum.splits prod.splits)
    have "consistent cid st \<longrightarrow> consistent cid st1"
    proof (rule mergeChildren_preserves
        [where Q = "\<lambda>s s'. consistent cid s \<longrightarrow> consistent cid s'", OF _ _ _ run])
      show "consistent cid s \<longrightarrow> consistent cid s'"
        if "mergeDirectories cid fuel s x y = Some (Inr (s', z))" for s x y s' z
        using that by (rule Suc.IH)
    qed auto
    then show ?thesis unfolding st' by (auto intro: consistent_sot_put)
  qed
qed

lemma mergeGrammarRoots_consistent:
  assumes "mergeGrammarRoots cid fuel st a b = Some (Inr (st', r))" "consistent cid st"
  shows "consistent cid st'"
proof (cases "resolve st a = None \<or> resolve st b = None")
  case True
  with assms show ?thesis
    by (auto simp: mergeGrammarRoots_def KVStore_put_def Let_def
        intro: consistent_sot_put split: option.splits)
next
  case False
  then obtain current source where cs: "resolve st a = Some current" "resolve st b = Some source"
    by auto
  from assms(1) cs obtain st1 merged1 cur src where
    run: "mergeDirs (mergeDirectories cid fuel) src cur st [] = Some (Inr (st1, merged1))"
    and st': "st' = st1\<lparr> sourceOfTruth := (sourceOfTruth st1)
            (cid (GrammarRoot (merged1 @ sourceOnly cur src)) \<mapsto>
             GrammarRoot (merged1 @ sourceOnly cur src)) \<rparr>"
    by (auto simp: mergeGrammarRoots_def Let_def KVStore_put_def
        split: option.splits sum.splits prod.splits)
  have "consistent cid st \<longrightarrow> consistent cid st1"
  proof (rule mergeDirs_preserves
      [where Q = "\<lambda>s s'. consistent cid s \<longrightarrow> consistent cid s'", OF _ _ _ run])
    show "consistent cid s \<longrightarrow> consistent cid s'"
      if "mergeDirectories cid fuel s x y = Some (Inr (s', z))" for s x y s' z
      using that by (rule mergeDirectories_consistent)
  qed auto
  with assms(2) show ?thesis unfolding st' by (auto intro: consistent_sot_put)
qed

text \<open>
  X2. Every entry of the store is stored under the CID of its value: this holds in a
  fresh engine, and every operation of the engine that returns keeps it.
\<close>

theorem consistent_invariant:
  "consistent cid (init cid u now) \<and>
   (consistent cid st \<longrightarrow>
      consistent cid (fst (put cid n st)) \<and>
      consistent cid (setRoot cid g st) \<and>
      consistent cid (setWorkingRoot c st) \<and>
      consistent cid (fst (createBranch u' nm fromCommit carry st)) \<and>
      consistent cid (archiveBranch b st) \<and>
      consistent cid (fst (commit_op cid now message author st)) \<and>
      (\<forall>st'. checkout b st = Inr st' \<longrightarrow> consistent cid st') \<and>
      (\<forall>st' k. updateNode cid oldCid n st = Inr (st', k) \<longrightarrow> consistent cid st') \<and>
      (\<forall>st'. merge cid now fuel b st = Some (Inr st') \<longrightarrow> consistent cid st'))"
proof (intro conjI impI allI)
  show "consistent cid (init cid u now)"
    by (auto simp: consistent_def init_def KVStore_put_def Let_def split: if_splits)
next
  assume c: "consistent cid st"
  from c show "consistent cid (fst (put cid n st))"
    by (auto simp: consistent_def put_fields split: if_splits)
  from c show "consistent cid (setRoot cid g st)"
    by (auto simp: consistent_def setRoot_fields split: if_splits)
  from c show "consistent cid (setWorkingRoot c st)"
    by (auto simp: consistent_def setWorkingRoot_fields)
  from c show "consistent cid (fst (createBranch u' nm fromCommit carry st))"
    by (auto simp: consistent_def createBranch_def Let_def transferTo_def KVStore_clear_def
        map_add_def split: option.splits)
  from c show "consistent cid (archiveBranch b st)"
    by (auto simp: consistent_def archiveBranch_def Let_def)
  from c show "consistent cid (fst (commit_op cid now message author st))"
    by (auto simp: consistent_def commit_op_fields map_add_def split: if_splits option.splits)
next
  fix st'
  assume c: "consistent cid st" and r: "checkout b st = Inr st'"
  then show "consistent cid st'"
    by (auto simp: consistent_def checkout_def Let_def KVStore_clear_def split: option.splits)
next
  fix st' k
  assume c: "consistent cid st" and r: "updateNode cid oldCid n st = Inr (st', k)"
  then show "consistent cid st'"
    by (auto simp: consistent_def updateNode_def Let_def KVStore_put_def
        split: option.splits if_splits)
next
  fix st'
  assume c: "consistent cid st" and r: "merge cid now fuel b st = Some (Inr st')"
  show "consistent cid st'"
  proof (cases "st' = st")
    case True
    with c show ?thesis by simp
  next
    case False
    with r obtain x y st1 z where m: "mergeGrammarRoots cid fuel st x y = Some (Inr (st1, z))"
      and eq: "sourceOfTruth st' = (sourceOfTruth st1)(cid (Commit [commit (objects st (currentBranch st)),
          commit (objects st b)] z ''merge'' now (''Merge '' @ [CHR 0x27] @ name (objects st b) @ [CHR 0x27] @
                    '' into '' @ [CHR 0x27] @ name (objects st (currentBranch st)) @ [CHR 0x27])) \<mapsto>
          Commit [commit (objects st (currentBranch st)),
          commit (objects st b)] z ''merge'' now (''Merge '' @ [CHR 0x27] @ name (objects st b) @ [CHR 0x27] @
                    '' into '' @ [CHR 0x27] @ name (objects st (currentBranch st)) @ [CHR 0x27]))"
        "workInProgress st' = Map.empty"
      by (auto simp: merge_def Let_def KVStore_put_def KVStore_clear_def
          split: option.splits sum.splits prod.splits if_splits)
    from mergeGrammarRoots_consistent [OF m c] eq show ?thesis
      by (auto simp: consistent_def split: if_splits)
  qed
qed

theorem consistent_invariant_witness:
  "consistent plainCid ex_init \<and> consistent plainCid ex_noted \<and>
   consistent plainCid ex_branched \<and> consistent plainCid ex_ahead \<and>
   merge plainCid ''t2'' 0 (Suc 0) ex_ahead = Some (Inr ex_merged) \<and>
   consistent plainCid ex_merged"
proof -
  have i: "consistent plainCid ex_init"
    unfolding ex_init_def using consistent_invariant [of plainCid "''u0''" "''t0''"] by blast
  have n: "consistent plainCid ex_noted"
    unfolding ex_noted_def
    using i consistent_invariant [where cid = plainCid and st = ex_init and n = ex_note]
    by blast
  have b: "consistent plainCid ex_branched"
    unfolding ex_branched_def
    using i consistent_invariant [where cid = plainCid and st = ex_init and u' = "''u1''"
        and nm = "''feature''" and fromCommit = None and carry = False]
    by blast
  have a: "consistent plainCid ex_ahead"
    unfolding ex_ahead_def
    using b consistent_invariant [where cid = plainCid and st = ex_branched and now = "''t1''"
        and message = "''work''" and author = "''alice''"]
    by blast
  have m: "consistent plainCid ex_merged"
    using a ex_ahead_merge
      consistent_invariant [where cid = plainCid and st = ex_ahead and now = "''t2''"
        and fuel = 0 and b = "Suc 0"]
    by blast
  from i n b a m ex_ahead_merge show ?thesis by blast
qed

text \<open>
  X3. \<open>put\<close> returns the CID of the node, the node resolves under that CID right after,
  and a second \<open>put\<close> of the same node changes nothing.
\<close>

theorem put_then_resolve:
  "snd (put cid n st) = cid n \<and>
   resolve (fst (put cid n st)) (snd (put cid n st)) = Some n \<and>
   fst (put cid n (fst (put cid n st))) = fst (put cid n st)"
  by (simp add: put_def KVStore_put_def Let_def resolve_def KVStore_get_def)

section \<open>The end-to-end scenario\<close>

text \<open>How \<open>resolve\<close> changes under the operations of the scenario.\<close>


lemma resolve_put: "resolve (fst (put cid n st)) k = (if k = cid n then Some n else resolve st k)"
  by (simp add: resolve_unfold put_fields split: option.splits)

lemma resolve_setRoot: "resolve (setRoot cid g st) k = (if k = cid g then Some g else resolve st k)"
  by (simp add: resolve_unfold setRoot_fields split: option.splits)

lemma resolve_commit_op:
  "resolve (fst (commit_op cid now message author st)) k =
     (if k = cid (Commit [commit (objects st (currentBranch st))] (workingRootCid st)
                    author now message)
      then Some (Commit [commit (objects st (currentBranch st))] (workingRootCid st)
                    author now message)
      else resolve st k)"
  by (simp add: resolve_unfold commit_op_fields map_add_def split: option.splits)

lemma createBranch_carry_fields:
  "workInProgress (fst (createBranch u nm None True st)) = Map.empty"
  "sourceOfTruth (fst (createBranch u nm None True st)) = sourceOfTruth st ++ workInProgress st"
  "currentBranch (fst (createBranch u nm None True st)) = nextRef st"
  "workingRootCid (fst (createBranch u nm None True st)) = workingRootCid st"
  "objects (fst (createBranch u nm None True st)) =
     (objects st)(nextRef st := \<lparr> uuid = u, name = nm, commit = commit (objects st (currentBranch st)) \<rparr>)"
  by (simp_all add: createBranch_def Let_def transferTo_def KVStore_clear_def)

lemma resolve_createBranch: "resolve (fst (createBranch u nm None True st)) k = resolve st k"
  by (simp add: resolve_unfold createBranch_carry_fields map_add_def split: option.splits)

lemma updateNode_rewrites_root:
  assumes "resolve (fst (put cid newNode st)) (workingRootCid st) = Some root"
    and "replaceInTree root oldCid (cid newNode) = Some newRoot"
  shows "updateNode cid oldCid newNode st
           = Inr (setRoot cid newRoot (fst (put cid newNode st)), cid newNode)"
  using assms
  by (simp add: updateNode_def put_def setRoot_def KVStore_put_def Let_def)

lemma checkout_clean:
  assumes "workInProgress st = Map.empty"
    and "resolve st (commit (objects st b)) = Some (Commit ps c a t m)"
  shows "checkout b st = Inr (st\<lparr> currentBranch := b, workingRootCid := c \<rparr>)"
  using assms by (simp add: checkout_def Let_def KVStore_clear_def resolve_unfold)


lemma e2e_dir_simps:
  "workingRootCid e2e_dir = plainCid (GrammarRoot [plainCid e2e_notes0])"
  "currentBranch e2e_dir = 0" "objects e2e_dir = objects ex_init" "nextRef e2e_dir = Suc 0"
  "resolve e2e_dir k =
     (if k = plainCid (GrammarRoot [plainCid e2e_notes0]) then Some (GrammarRoot [plainCid e2e_notes0])
      else if k = plainCid e2e_notes0 then Some e2e_notes0 else resolve ex_init k)"
  by (simp_all add: e2e_dir_def setRoot_fields put_fields ex_init_simps resolve_setRoot resolve_put)
     (simp_all add: setRoot_def put_def KVStore_put_def Let_def ex_init_simps)

lemma e2e_doc_eq:
  "e2e_doc = setRoot plainCid ex_root (fst (put plainCid ex_notes (fst (put plainCid ex_note e2e_dir))))"
proof -
  have nn: "plainCid e2e_notes0 \<noteq> ''grammar_root''"
    by (simp add: plainCid_def encList_def encStr_def e2e_notes0_def)
  have "updateNode plainCid (plainCid e2e_notes0) ex_notes (fst (put plainCid ex_note e2e_dir))
      = Inr (setRoot plainCid ex_root
               (fst (put plainCid ex_notes (fst (put plainCid ex_note e2e_dir)))), plainCid ex_notes)"
  proof (rule updateNode_rewrites_root)
    show "resolve (fst (put plainCid ex_notes (fst (put plainCid ex_note e2e_dir))))
        (workingRootCid (fst (put plainCid ex_note e2e_dir)))
      = Some (GrammarRoot [plainCid e2e_notes0])"
      by (simp add: resolve_put put_fields e2e_dir_simps plainCid_eq_iff ex_notes_def ex_note_def)
    show "replaceInTree (GrammarRoot [plainCid e2e_notes0]) (plainCid e2e_notes0) (plainCid ex_notes)
      = Some ex_root"
      using nn by (auto simp: replaceInTree_def replaceValue_def ex_root_def)
  qed
  then show ?thesis by (simp add: e2e_doc_def)
qed


lemma e2e_doc_simps:
  "workingRootCid e2e_doc = plainCid ex_root"
  "currentBranch e2e_doc = 0" "objects e2e_doc = objects ex_init" "nextRef e2e_doc = Suc 0"
  "resolve e2e_doc k =
     (if k = plainCid ex_root then Some ex_root
      else if k = plainCid ex_notes then Some ex_notes
      else if k = plainCid ex_note then Some ex_note else resolve e2e_dir k)"
  by (simp_all add: e2e_doc_eq setRoot_fields put_fields e2e_dir_simps(1-4) resolve_setRoot
      resolve_put)
     (simp_all add: setRoot_def put_def KVStore_put_def Let_def e2e_dir_simps(1-4))

lemma e2e_committed_simps:
  "workingRootCid e2e_committed = plainCid ex_root"
  "currentBranch e2e_committed = 0" "nextRef e2e_committed = Suc 0"
  "objects e2e_committed 0 = \<lparr> uuid = ''u0'', name = ''default'', commit = plainCid e2e_commit1 \<rparr>"
  "workInProgress e2e_committed = Map.empty"
  "resolve e2e_committed k =
     (if k = plainCid e2e_commit1 then Some e2e_commit1 else resolve e2e_doc k)"
  by (simp_all add: e2e_committed_def commit_op_fields e2e_doc_simps(1-4) resolve_commit_op
      ex_init_simps e2e_commit1_def ex_commit0_def)

lemma e2e_feature_simps:
  "workingRootCid e2e_feature = plainCid ex_root"
  "currentBranch e2e_feature = Suc 0"
  "objects e2e_feature 0 = \<lparr> uuid = ''u0'', name = ''default'', commit = plainCid e2e_commit1 \<rparr>"
  "objects e2e_feature (Suc 0) =
     \<lparr> uuid = ''u1'', name = ''feature'', commit = plainCid e2e_commit1 \<rparr>"
  "resolve e2e_feature k = resolve e2e_committed k"
  by (simp_all add: e2e_feature_def createBranch_carry_fields e2e_committed_simps(1-5)
      resolve_createBranch)

lemma e2e_edited_simps:
  "workingRootCid e2e_edited = plainCid e2e_root2"
  "currentBranch e2e_edited = Suc 0"
  "objects e2e_edited = objects e2e_feature"
  "resolve e2e_edited k =
     (if k = plainCid e2e_root2 then Some e2e_root2
      else if k = plainCid e2e_notes2 then Some e2e_notes2
      else if k = plainCid e2e_todo2 then Some e2e_todo2
      else if k = plainCid (Paragraph []) then Some (Paragraph [])
      else resolve e2e_feature k)"
  by (simp_all add: e2e_edited_def setRoot_fields put_fields e2e_feature_simps(1-4)
      resolve_setRoot resolve_put)

lemma e2e_committed2_simps:
  "currentBranch e2e_committed2 = Suc 0"
  "objects e2e_committed2 0 = \<lparr> uuid = ''u0'', name = ''default'', commit = plainCid e2e_commit1 \<rparr>"
  "objects e2e_committed2 (Suc 0) =
     \<lparr> uuid = ''u1'', name = ''feature'', commit = plainCid e2e_commit2 \<rparr>"
  "workInProgress e2e_committed2 = Map.empty"
  "resolve e2e_committed2 k =
     (if k = plainCid e2e_commit2 then Some e2e_commit2 else resolve e2e_edited k)"
  by (simp_all add: e2e_committed2_def commit_op_fields e2e_edited_simps(1-3)
      e2e_feature_simps(1-4) resolve_commit_op e2e_commit2_def)

lemmas e2e_nodes = ex_root_def ex_notes_def ex_note_def ex_commit0_def e2e_commit1_def
  e2e_commit2_def e2e_root2_def e2e_notes2_def e2e_todo2_def e2e_notes0_def

lemma e2e_default_eq:
  "e2e_default = e2e_committed2\<lparr> currentBranch := 0, workingRootCid := plainCid ex_root \<rparr>"
proof -
  have "resolve e2e_committed2 (commit (objects e2e_committed2 0))
      = Some (Commit [plainCid ex_commit0] (plainCid ex_root) ''alice'' ''t2'' ''add todo'')"
    by (simp add: e2e_committed2_simps e2e_edited_simps e2e_feature_simps e2e_committed_simps
        plainCid_eq_iff)
       (simp add: e2e_nodes plainCid_eq_iff)
  with e2e_committed2_simps(4) have "checkout 0 e2e_committed2
      = Inr (e2e_committed2\<lparr> currentBranch := 0, workingRootCid := plainCid ex_root \<rparr>)"
    by (rule checkout_clean)
  then show ?thesis by (simp add: e2e_default_def)
qed

lemma e2e_default_resolve:
  "resolve e2e_default (plainCid e2e_commit1) = Some e2e_commit1"
  "resolve e2e_default (plainCid e2e_commit2) = Some e2e_commit2"
  "resolve e2e_default (plainCid ex_root) = Some ex_root"
  "resolve e2e_default (plainCid e2e_root2) = Some e2e_root2"
  "resolve e2e_default (plainCid ex_notes) = Some ex_notes"
  "resolve e2e_default (plainCid e2e_notes2) = Some e2e_notes2"
  "resolve e2e_default (plainCid ex_note) = Some ex_note"
  "resolve e2e_default (plainCid e2e_todo2) = Some e2e_todo2"
proof -
  have eq: "resolve e2e_default k = resolve e2e_committed2 k" for k
    by (simp add: e2e_default_eq resolve_unfold split: option.splits)
  show "resolve e2e_default (plainCid e2e_commit1) = Some e2e_commit1"
    "resolve e2e_default (plainCid e2e_commit2) = Some e2e_commit2"
    "resolve e2e_default (plainCid ex_root) = Some ex_root"
    "resolve e2e_default (plainCid e2e_root2) = Some e2e_root2"
    "resolve e2e_default (plainCid ex_notes) = Some ex_notes"
    "resolve e2e_default (plainCid e2e_notes2) = Some e2e_notes2"
    "resolve e2e_default (plainCid ex_note) = Some ex_note"
    "resolve e2e_default (plainCid e2e_todo2) = Some e2e_todo2"
    unfolding eq
    by (simp_all add: e2e_committed2_simps e2e_edited_simps e2e_feature_simps e2e_committed_simps
        e2e_doc_simps plainCid_eq_iff e2e_nodes)
qed


lemmas e2e_default_resolved = e2e_default_resolve [unfolded e2e_nodes]

lemma e2e_default_fields:
  "currentBranch e2e_default = 0"
  "objects e2e_default 0 = \<lparr> uuid = ''u0'', name = ''default'', commit = plainCid e2e_commit1 \<rparr>"
  "objects e2e_default (Suc 0) =
     \<lparr> uuid = ''u1'', name = ''feature'', commit = plainCid e2e_commit2 \<rparr>"
  "workInProgress e2e_default = Map.empty"
  "workingRootCid e2e_default = plainCid ex_root"
  by (simp_all add: e2e_default_eq e2e_committed2_simps)

lemma resolve_sot_update:
  "resolve (st\<lparr> sourceOfTruth := (sourceOfTruth st)(c \<mapsto> n) \<rparr>) k =
     (if k = c \<and> workInProgress st k = None then Some n else resolve st k)"
  by (simp add: resolve_unfold split: option.splits)

lemma e2e_mergeDirectories:
  "mergeDirectories plainCid (Suc 0) e2e_default (plainCid ex_notes) (plainCid e2e_notes2) =
     Some (Inr (e2e_default\<lparr> sourceOfTruth :=
        (sourceOfTruth e2e_default)(plainCid e2e_notes2 \<mapsto> e2e_notes2) \<rparr>, plainCid e2e_notes2))"
  by (simp add: e2e_nodes e2e_default_resolved childrenMap_def isFolder_def sourceOnly_def
      KVStore_put_def Let_def plainCid_not_Nil)

lemma e2e_mergeGrammarRoots:
  "mergeGrammarRoots plainCid (Suc 0) e2e_default (plainCid ex_root) (plainCid e2e_root2) =
     Some (Inr (e2e_default\<lparr> sourceOfTruth :=
        (sourceOfTruth e2e_default)(plainCid e2e_notes2 \<mapsto> e2e_notes2,
           plainCid e2e_root2 \<mapsto> e2e_root2) \<rparr>, plainCid e2e_root2))"
  using e2e_mergeDirectories
  by (simp add: mergeGrammarRoots_def e2e_nodes e2e_default_resolved dirsMap_def sourceOnly_def
      KVStore_put_def Let_def plainCid_not_Nil del: mergeDirectories.simps)


text \<open>
  X4. The end-to-end scenario. After the directory \<open>notes\<close> and the document \<open>todo\<close> are
  created and committed on the default branch, the branch \<open>feature\<close> is created with
  the working state carried, \<open>todo\<close> is edited and committed there, and the default
  branch is checked out again, the merge of \<open>feature\<close> returns; the working root is then
  the root of \<open>feature\<close>, the path \<open>notes/todo\<close> resolves to the edited document, the head of
  the default branch is a commit with the two former heads as parents, the head of
  \<open>feature\<close> is unchanged, and the working tree is clean.
\<close>

theorem end_to_end_scenario:
  "\<exists>st. merge plainCid ''t4'' (Suc 0) (Suc 0) e2e_default = Some (Inr st) \<and>
     workingRootCid st = plainCid e2e_root2 \<and>
     resolve st (workingRootCid st) = Some (GrammarRoot [plainCid e2e_notes2]) \<and>
     resolve st (plainCid e2e_notes2) = Some (Folder ''notes'' [plainCid e2e_todo2]) \<and>
     resolve st (plainCid e2e_todo2) =
       Some (Document (Some ''todo'') ''t1'' [plainCid (Paragraph [])]) \<and>
     resolve st (commit (objects st (currentBranch st))) =
       Some (Commit [plainCid e2e_commit1, plainCid e2e_commit2] (plainCid e2e_root2)
               ''merge'' ''t4''
               (''Merge '' @ [CHR 0x27] @ ''feature'' @ [CHR 0x27] @ '' into '' @
                [CHR 0x27] @ ''default'' @ [CHR 0x27])) \<and>
     commit (objects st (Suc 0)) = plainCid e2e_commit2 \<and>
     isDirty st = Inr False"
proof -
  define mc where "mc = Commit [plainCid e2e_commit1, plainCid e2e_commit2] (plainCid e2e_root2)
      ''merge'' ''t4''
      (''Merge '' @ [CHR 0x27] @ ''feature'' @ [CHR 0x27] @ '' into '' @
       [CHR 0x27] @ ''default'' @ [CHR 0x27])"
  have d: "plainCid e2e_commit1 \<noteq> plainCid e2e_commit2"
    by (simp add: plainCid_eq_iff e2e_nodes)
  have r: "resolve e2e_default (plainCid e2e_commit1)
             = Some (Commit [plainCid ex_commit0] (plainCid ex_root) ''alice'' ''t2'' ''add todo'')"
    "resolve e2e_default (plainCid e2e_commit2)
             = Some (Commit [plainCid e2e_commit1] (plainCid e2e_root2) ''alice'' ''t3'' ''edit'')"
    by (simp_all add: e2e_default_resolve) (simp_all add: e2e_commit1_def e2e_commit2_def)
  have m: "merge plainCid ''t4'' (Suc 0) (Suc 0) e2e_default =
      Some (Inr (e2e_default\<lparr>
        sourceOfTruth := (sourceOfTruth e2e_default)(plainCid e2e_notes2 \<mapsto> e2e_notes2,
           plainCid e2e_root2 \<mapsto> e2e_root2, plainCid mc \<mapsto> mc),
        objects := (objects e2e_default)(0 := \<lparr> uuid = ''u0'', name = ''default'',
           commit = plainCid mc \<rparr>),
        workingRootCid := plainCid e2e_root2,
        workInProgress := Map.empty \<rparr>))"
    using d e2e_mergeGrammarRoots
    by (simp add: merge_def e2e_default_fields r Let_def KVStore_put_def KVStore_clear_def mc_def
        del: mergeDirectories.simps)
  have n: "mc \<noteq> e2e_root2" "mc \<noteq> e2e_notes2" "mc \<noteq> e2e_todo2"
    "e2e_root2 \<noteq> e2e_notes2" "e2e_root2 \<noteq> e2e_todo2" "e2e_notes2 \<noteq> e2e_todo2"
    by (simp_all add: mc_def e2e_nodes)
  have c: "content_cid mc = Some (plainCid e2e_root2)" by (simp add: mc_def)
  have e: "resolve e2e_default (plainCid e2e_todo2) = Some e2e_todo2"
    by (rule e2e_default_resolve)
  show ?thesis
    unfolding m
    using n c e
    by (simp add: resolve_unfold isDirty_def e2e_default_fields plainCid_eq_iff
        mc_def [symmetric])
       (simp add: mc_def e2e_root2_def e2e_notes2_def e2e_todo2_def)
qed

end
